theory Spec2Isabelle
  imports Main
begin

section \<open>Data model\<close>

text \<open>
  The types of \<^verbatim>\<open>core/types/index.ts\<close> and of the content script
  \<^verbatim>\<open>pages/content/index.ts\<close>. A feature key is a string; the feature toggles
  (\<^verbatim>\<open>settings.features\<close>, a JavaScript object) are an association list whose order is
  the order of \<^verbatim>\<open>Object.keys\<close>; an object has every key once, which the theorems
  state as \<open>distinct (map fst toggles)\<close>. The field is called \<open>featureToggles\<close> here,
  after its type \<^verbatim>\<open>FeatureToggles\<close>, because \<open>features\<close> is the name of the registry.
\<close>

type_synonym FeatureKey = string

type_synonym Element = nat

datatype Locale = En | De

record VoyagerSettings =
  uiLocale :: Locale
  featureToggles :: "(FeatureKey \<times> bool) list"
  chatWidth :: int
  schemaVersion :: nat

section \<open>The DOM service\<close>

text \<open>
  \<^verbatim>\<open>core/services/DOMService.ts\<close>. The registry \<^verbatim>\<open>observers\<close> is a JavaScript
  \<^verbatim>\<open>Map\<close> from a name to an entry: an association list in insertion order with
  \<open>map_set\<close> and \<open>map_delete\<close>, read by \<open>map_of\<close>. The browser's
  \<^verbatim>\<open>MutationObserver\<close> objects live in a heap (a list; an object's identity is its
  index): \<open>observing\<close> holds the nodes an observer watches, \<^verbatim>\<open>observe(target)\<close> adds
  one and \<^verbatim>\<open>disconnect()\<close> empties it. \<open>createdAs\<close> is a ghost field: the name under
  which \<^verbatim>\<open>DOM.observe\<close> created the object.
\<close>

type_synonym Node = nat

fun map_set :: "'k \<Rightarrow> 'v \<Rightarrow> ('k \<times> 'v) list \<Rightarrow> ('k \<times> 'v) list" where
  "map_set k v [] = [(k, v)]"
| "map_set k v ((k', v') # rest) =
     (if k' = k then (k, v) # rest else (k', v') # map_set k v rest)"

definition map_delete :: "'k \<Rightarrow> ('k \<times> 'v) list \<Rightarrow> ('k \<times> 'v) list" where
  "map_delete k al = filter (\<lambda>(k', _). k' \<noteq> k) al"

record 'cb MutationObserver =
  callback :: 'cb
  observing :: "Node list"
  createdAs :: string

record ObserverEntry =
  observer :: nat
  target :: Node

record 'cb DOMService =
  observers :: "(string \<times> ObserverEntry) list"
  heap :: "'cb MutationObserver list"

definition disconnect :: "nat \<Rightarrow> 'cb MutationObserver list \<Rightarrow> 'cb MutationObserver list" where
  "disconnect oid h = (if oid < length h then h[oid := (h ! oid)\<lparr>observing := []\<rparr>] else h)"

definition unobserve :: "string \<Rightarrow> 'cb DOMService \<Rightarrow> 'cb DOMService" where
  "unobserve name d =
     (case map_of (observers d) name of
        None \<Rightarrow> d
      | Some entry \<Rightarrow>
          d\<lparr>heap := disconnect (observer entry) (heap d),
            observers := map_delete name (observers d)\<rparr>)"

definition observe :: "string \<Rightarrow> Node \<Rightarrow> 'cb \<Rightarrow> 'cb DOMService \<Rightarrow> 'cb DOMService" where
  "observe name tgt cb d =
     (let d1 = unobserve name d;
          oid = length (heap d1)
      in d1\<lparr>heap := heap d1 @ [\<lparr>callback = cb, observing = [tgt], createdAs = name\<rparr>],
             observers := map_set name \<lparr>observer = oid, target = tgt\<rparr> (observers d1)\<rparr>)"

definition disconnectAll :: "'cb DOMService \<Rightarrow> 'cb DOMService" where
  "disconnectAll d =
     d\<lparr>heap := fold (\<lambda>(name, entry) h. disconnect (observer entry) h) (observers d) (heap d),
       observers := []\<rparr>"

text \<open>
  A mutation under node \<open>n\<close> makes the browser call the callback of every observer that
  watches \<open>n\<close>: \<open>notified n d\<close> lists these observers, \<open>liveWatches name d\<close> the
  connected observers created under \<open>name\<close>.
\<close>

definition notified :: "Node \<Rightarrow> 'cb DOMService \<Rightarrow> nat list" where
  "notified n d = filter (\<lambda>oid. n \<in> set (observing (heap d ! oid))) [0 ..< length (heap d)]"

definition liveWatches :: "string \<Rightarrow> 'cb DOMService \<Rightarrow> nat list" where
  "liveWatches name d =
     filter (\<lambda>oid. createdAs (heap d ! oid) = name \<and> observing (heap d ! oid) \<noteq> [])
       [0 ..< length (heap d)]"

datatype 'cb domCall =
    Observe string Node 'cb
  | Unobserve string
  | DisconnectAll

fun applyDomCall :: "'cb domCall \<Rightarrow> 'cb DOMService \<Rightarrow> 'cb DOMService" where
  "applyDomCall (Observe name tgt cb) d = observe name tgt cb d"
| "applyDomCall (Unobserve name) d = unobserve name d"
| "applyDomCall DisconnectAll d = disconnectAll d"

definition domCalls :: "'cb domCall list \<Rightarrow> 'cb DOMService \<Rightarrow> 'cb DOMService" where
  "domCalls cs d = fold applyDomCall cs d"

definition noObservers :: "'cb DOMService" where
  "noObservers = \<lparr>observers = [], heap = []\<rparr>"

subsection \<open>Chat-specific helpers\<close>

text \<open>
  \<^verbatim>\<open>getConversationId\<close> and \<^verbatim>\<open>isChatPage\<close> read
  \<^verbatim>\<open>window.location.pathname\<close>, here the argument. Both regular expressions carry the
  flag \<^verbatim>\<open>i\<close>: a character of the pattern matches a character of the input when their
  upper-case forms agree, so the class \<^verbatim>\<open>[a-f0-9-]\<close> takes \<^verbatim>\<open>A-F\<close> too and
  \<^verbatim>\<open>/chat/\<close> matches in any case. \<^verbatim>\<open>exec\<close> tries the start positions from the left;
  \<^verbatim>\<open>+\<close> is greedy and nothing follows the group, so the group is the longest run.
\<close>

definition toUpperCase :: "char \<Rightarrow> char" where
  "toUpperCase c =
     (case map_of (zip ''abcdefghijklmnopqrstuvwxyz'' ''ABCDEFGHIJKLMNOPQRSTUVWXYZ'') c of
        Some u \<Rightarrow> u
      | None \<Rightarrow> c)"

definition isHexDash :: "char \<Rightarrow> bool" where
  "isHexDash c = (toUpperCase c \<in> set ''ABCDEF0123456789-'')"

definition matchLiteral :: "string \<Rightarrow> string \<Rightarrow> string option" where
  "matchLiteral lit s =
     (if length lit \<le> length s \<and> map toUpperCase (take (length lit) s) = map toUpperCase lit
      then Some (drop (length lit) s) else None)"

definition execHere :: "string \<Rightarrow> string option" where
  "execHere s =
     (case matchLiteral ''/chat/'' s of
        None \<Rightarrow> None
      | Some rest \<Rightarrow>
          (if takeWhile isHexDash rest = [] then None else Some (takeWhile isHexDash rest)))"

fun getConversationId :: "string \<Rightarrow> string option" where
  "getConversationId [] = None"
| "getConversationId (c # cs) =
     (case execHere (c # cs) of
        Some cid \<Rightarrow> Some cid
      | None \<Rightarrow> getConversationId cs)"

definition isChatPage :: "string \<Rightarrow> bool" where
  "isChatPage s =
     (case matchLiteral ''/chat/'' s of
        None \<Rightarrow> False
      | Some rest \<Rightarrow> rest \<noteq> [] \<and> list_all isHexDash rest)"

text \<open>
  A call into a feature module either returns or throws. The trace \<open>calls\<close> of the state
  records every call the content script makes into a module, in order. The body of a module
  function is arbitrary JavaScript with state of its own, so whether a call throws may depend
  on everything that happened before: each hook of a module takes the trace up to the call.
\<close>

datatype outcome = Returns | Throws

datatype call =
    Init FeatureKey VoyagerSettings
  | Destroy FeatureKey
  | OnNavigate FeatureKey "string option"
  | OnMessagesChanged FeatureKey Element

record FeatureModule =
  key :: FeatureKey
  init :: "call list \<Rightarrow> VoyagerSettings \<Rightarrow> outcome"
  destroy :: "call list \<Rightarrow> outcome"
  onNavigate :: "(call list \<Rightarrow> string option \<Rightarrow> outcome) option"
  onMessagesChanged :: "(call list \<Rightarrow> Element \<Rightarrow> outcome) option"

text \<open>
  Pending timeouts of the page: \<^verbatim>\<open>setTimeout(f, delay)\<close> appends \<open>(id, delay, task)\<close>
  and \<^verbatim>\<open>clearTimeout(id)\<close> removes it. The browser's timer ids are positive, so a
  stored id is truthy and \<^verbatim>\<open>if (messageObserverRetryTimer)\<close> tests for \<open>Some\<close>.
\<close>

datatype task =
    TCheckNavigation
  | TSetupMessageObserver nat
  | TApplySidebarPinning
  | TOnMutation Element

text \<open>
  The module-level variables of the content script. \<open>activeFeatures\<close> is a JavaScript
  \<^verbatim>\<open>Set\<close>: it iterates in insertion order and holds no key twice, so it is a list
  with \<open>set_add\<close> and \<open>set_delete\<close>.
\<close>

record state =
  features :: "FeatureKey \<rightharpoonup> FeatureModule"
  activeFeatures :: "FeatureKey list"
  lastPath :: string
  messageObserverRetryTimer :: "nat option"
  sidebarPinningEnabled :: bool
  timers :: "(nat \<times> nat \<times> task) list"
  nextTimerId :: nat
  DOM :: "Element DOMService"
  debounceTimer :: "nat \<rightharpoonup> nat"
  calls :: "call list"

definition set_add :: "'a \<Rightarrow> 'a list \<Rightarrow> 'a list" where
  "set_add k xs = (if k \<in> set xs then xs else xs @ [k])"

definition set_delete :: "'a \<Rightarrow> 'a list \<Rightarrow> 'a list" where
  "set_delete k xs = filter (\<lambda>x. x \<noteq> k) xs"

section \<open>Feature registration and lifecycle\<close>

definition registerFeature :: "FeatureModule \<Rightarrow> state \<Rightarrow> state" where
  "registerFeature m s = s\<lparr>features := (features s)(key m \<mapsto> m)\<rparr>"

text \<open>
  \<^verbatim>\<open>activateFeature\<close>: the \<^verbatim>\<open>try\<close> block calls \<^verbatim>\<open>init\<close> and adds the key
  only when the call returned; the \<^verbatim>\<open>catch\<close> logs. The logger is taken not to throw.
\<close>

definition activateFeature :: "FeatureKey \<Rightarrow> VoyagerSettings \<Rightarrow> state \<Rightarrow> outcome \<times> state" where
  "activateFeature k settings s =
     (if k \<in> set (activeFeatures s) then (Returns, s)
      else case features s k of
        None \<Rightarrow> (Returns, s)
      | Some m \<Rightarrow>
          (case init m (calls s) settings of
             Returns \<Rightarrow>
               (Returns, s\<lparr>activeFeatures := set_add k (activeFeatures s),
                           calls := calls s @ [Init k settings]\<rparr>)
           | Throws \<Rightarrow> (Returns, s\<lparr>calls := calls s @ [Init k settings]\<rparr>)))"

text \<open>
  \<^verbatim>\<open>deactivateFeature\<close>: \<^verbatim>\<open>destroy\<close> is called inside \<^verbatim>\<open>try\<close>, and the key is
  deleted after the \<^verbatim>\<open>try\<close> statement, on both paths.
\<close>

definition deactivateFeature :: "FeatureKey \<Rightarrow> state \<Rightarrow> outcome \<times> state" where
  "deactivateFeature k s =
     (if k \<notin> set (activeFeatures s) then (Returns, s)
      else case features s k of
        None \<Rightarrow> (Returns, s\<lparr>activeFeatures := set_delete k (activeFeatures s)\<rparr>)
      | Some m \<Rightarrow>
          (case destroy m (calls s) of
             Returns \<Rightarrow>
               (Returns, s\<lparr>activeFeatures := set_delete k (activeFeatures s),
                           calls := calls s @ [Destroy k]\<rparr>)
           | Throws \<Rightarrow>
               (Returns, s\<lparr>activeFeatures := set_delete k (activeFeatures s),
                           calls := calls s @ [Destroy k]\<rparr>)))"

text \<open>
  \<^verbatim>\<open>setSidebarPinningEnabled\<close> sets the flag; \<^verbatim>\<open>applySidebarPinning\<close> and
  \<^verbatim>\<open>restoreSidebarPinning\<close> work on the nodes of the page's sidebar and on variables
  of their own (the pinning timer, the promoted items), none of them a field of \<open>state\<close>.
  A missing key \<^verbatim>\<open>folders\<close> reads as \<^verbatim>\<open>undefined\<close>, which is falsy.
\<close>

definition setSidebarPinningEnabled :: "bool \<Rightarrow> state \<Rightarrow> outcome \<times> state" where
  "setSidebarPinningEnabled enabled s =
     (if sidebarPinningEnabled s = enabled then (Returns, s)
      else (Returns, s\<lparr>sidebarPinningEnabled := enabled\<rparr>))"

text \<open>
  \<^verbatim>\<open>syncFeatures\<close>: \<open>settings\<close> is what \<^verbatim>\<open>Storage.getSettings()\<close> resolved to. The
  loop runs over \<^verbatim>\<open>Object.keys(settings.features)\<close>; an exception escaping a step would
  end the loop.
\<close>

fun syncLoop :: "(FeatureKey \<times> bool) list \<Rightarrow> VoyagerSettings \<Rightarrow> state \<Rightarrow> outcome \<times> state" where
  "syncLoop [] settings s = (Returns, s)"
| "syncLoop ((k, enabled) # rest) settings s =
     (case (if enabled then activateFeature k settings s else deactivateFeature k s) of
        (Throws, s') \<Rightarrow> (Throws, s')
      | (Returns, s') \<Rightarrow> syncLoop rest settings s')"

definition syncFeatures :: "VoyagerSettings \<Rightarrow> state \<Rightarrow> outcome \<times> state" where
  "syncFeatures settings s =
     (case syncLoop (featureToggles settings) settings s of
        (Throws, s') \<Rightarrow> (Throws, s')
      | (Returns, s') \<Rightarrow>
          setSidebarPinningEnabled
            (case map_of (featureToggles settings) ''folders'' of Some b \<Rightarrow> b | None \<Rightarrow> False) s')"

text \<open>
  \<open>reachedAt k settings s\<close> is the state in which the loop of \<^verbatim>\<open>syncFeatures\<close>
  reaches the key \<open>k\<close>: the keys before \<open>k\<close> in \<^verbatim>\<open>Object.keys\<close> order have been
  handled. Its trace is the history at the call of \<open>k\<close>'s \<^verbatim>\<open>init\<close>.
\<close>

definition reachedAt :: "FeatureKey \<Rightarrow> VoyagerSettings \<Rightarrow> state \<Rightarrow> state" where
  "reachedAt k settings s =
     snd (syncLoop (takeWhile (\<lambda>(k', _). k' \<noteq> k) (featureToggles settings)) settings s)"

section \<open>Navigation detection\<close>

definition setTimeout :: "task \<Rightarrow> nat \<Rightarrow> state \<Rightarrow> nat \<times> state" where
  "setTimeout f delay s =
     (nextTimerId s,
      s\<lparr>timers := timers s @ [(nextTimerId s, delay, f)], nextTimerId := nextTimerId s + 1\<rparr>)"

definition clearTimeout :: "nat \<Rightarrow> state \<Rightarrow> state" where
  "clearTimeout tid s = s\<lparr>timers := filter (\<lambda>(i, _, _). i \<noteq> tid) (timers s)\<rparr>"

text \<open>
  The loop \<^verbatim>\<open>for (const key of activeFeatures) { module?.onNavigate?.(conversationId) }\<close>
  of \<^verbatim>\<open>checkNavigation\<close>. There is no \<^verbatim>\<open>try\<close> around the call: when it throws, the
  exception leaves the loop and the function.
\<close>

fun notifyNavigate :: "FeatureKey list \<Rightarrow> string option \<Rightarrow> state \<Rightarrow> outcome \<times> state" where
  "notifyNavigate [] conversationId s = (Returns, s)"
| "notifyNavigate (k # ks) conversationId s =
     (case features s k of
        None \<Rightarrow> notifyNavigate ks conversationId s
      | Some m \<Rightarrow>
          (case onNavigate m of
             None \<Rightarrow> notifyNavigate ks conversationId s
           | Some f \<Rightarrow>
               (case f (calls s) conversationId of
                  Throws \<Rightarrow> (Throws, s\<lparr>calls := calls s @ [OnNavigate k conversationId]\<rparr>)
                | Returns \<Rightarrow>
                    notifyNavigate ks conversationId
                      (s\<lparr>calls := calls s @ [OnNavigate k conversationId]\<rparr>))))"

text \<open>
  \<^verbatim>\<open>checkNavigation\<close>: \<open>currentPath\<close> is \<^verbatim>\<open>window.location.pathname\<close> at the call.
  After the loop it schedules \<^verbatim>\<open>applySidebarPinning\<close> (when pinning is enabled) and
  the re-establishment of the message observer.
\<close>

definition checkNavigation :: "string \<Rightarrow> state \<Rightarrow> outcome \<times> state" where
  "checkNavigation currentPath s =
     (if currentPath = lastPath s then (Returns, s)
      else
        (let s1 = s\<lparr>lastPath := currentPath\<rparr>;
             conversationId = getConversationId currentPath
         in case notifyNavigate (activeFeatures s1) conversationId s1 of
              (Throws, s2) \<Rightarrow> (Throws, s2)
            | (Returns, s2) \<Rightarrow>
                (let s3 = (if sidebarPinningEnabled s2
                           then snd (setTimeout TApplySidebarPinning 250 s2) else s2)
                 in (Returns, snd (setTimeout (TSetupMessageObserver 0) 300 s3)))))"

section \<open>The message observer\<close>

definition MESSAGE_OBSERVER_MAX_RETRIES :: nat where
  "MESSAGE_OBSERVER_MAX_RETRIES = 6"

text \<open>
  \<^verbatim>\<open>setupMessageObserver(retryCount)\<close>: \<open>container\<close> is the result of
  \<^verbatim>\<open>DOM.query('mainContent')\<close>. The callback handed to \<^verbatim>\<open>DOM.observe\<close> is the
  debounced closure over \<open>container\<close>; the heap stores the container for it.
\<close>

definition setupMessageObserver :: "Element option \<Rightarrow> nat \<Rightarrow> state \<Rightarrow> state" where
  "setupMessageObserver container retryCount s =
     (case container of
        None \<Rightarrow>
          (if retryCount \<ge> MESSAGE_OBSERVER_MAX_RETRIES then s
           else
             (let delay = min (1000 * 2 ^ retryCount) 10000;
                  (tid, s1) = setTimeout (TSetupMessageObserver (retryCount + 1)) delay s
              in s1\<lparr>messageObserverRetryTimer := Some tid\<rparr>))
      | Some c \<Rightarrow>
          (let s1 = (case messageObserverRetryTimer s of
                       None \<Rightarrow> s
                     | Some tid \<Rightarrow> (clearTimeout tid s)\<lparr>messageObserverRetryTimer := None\<rparr>)
           in s1\<lparr>DOM := observe ''messages'' c c (DOM s1)\<rparr>))"

text \<open>
  The body of \<^verbatim>\<open>onMutation\<close>, run when its debounce timer fires: the loop over
  \<^verbatim>\<open>activeFeatures\<close> calling \<^verbatim>\<open>onMessagesChanged\<close>, again without \<^verbatim>\<open>try\<close>.
\<close>

fun notifyMessagesChanged :: "FeatureKey list \<Rightarrow> Element \<Rightarrow> state \<Rightarrow> outcome \<times> state" where
  "notifyMessagesChanged [] container s = (Returns, s)"
| "notifyMessagesChanged (k # ks) container s =
     (case features s k of
        None \<Rightarrow> notifyMessagesChanged ks container s
      | Some m \<Rightarrow>
          (case onMessagesChanged m of
             None \<Rightarrow> notifyMessagesChanged ks container s
           | Some f \<Rightarrow>
               (case f (calls s) container of
                  Throws \<Rightarrow> (Throws, s\<lparr>calls := calls s @ [OnMessagesChanged k container]\<rparr>)
                | Returns \<Rightarrow>
                    notifyMessagesChanged ks container
                      (s\<lparr>calls := calls s @ [OnMessagesChanged k container]\<rparr>))))"

definition onMutation :: "Element \<Rightarrow> state \<Rightarrow> outcome \<times> state" where
  "onMutation container s = notifyMessagesChanged (activeFeatures s) container s"

text \<open>
  \<^verbatim>\<open>debounce(fn, 150)\<close>: a call of the returned closure clears the closure's pending
  timer and sets a new one. The closure belongs to one observer, so its variable
  \<^verbatim>\<open>timer\<close> is \<open>debounceTimer s oid\<close>.
\<close>

definition debounced :: "nat \<Rightarrow> Element \<Rightarrow> state \<Rightarrow> state" where
  "debounced oid container s =
     (let s1 = (case debounceTimer s oid of None \<Rightarrow> s | Some tid \<Rightarrow> clearTimeout tid s);
          (tid, s2) = setTimeout (TOnMutation container) 150 s1
      in s2\<lparr>debounceTimer := (debounceTimer s2)(oid \<mapsto> tid)\<rparr>)"

text \<open>
  The retries of one page load: each step runs \<^verbatim>\<open>setupMessageObserver\<close>, and when
  that call scheduled a retry, the timer fires and the next step runs with the retry count
  the timer carries. \<open>q n\<close> is what \<^verbatim>\<open>DOM.query\<close> finds at the attempt with retry count
  \<open>n\<close>. The result is the list of the delays waited and the final state.
\<close>

fun retryOf :: "nat \<times> nat \<times> task \<Rightarrow> (nat \<times> nat \<times> nat) option" where
  "retryOf (tid, delay, TSetupMessageObserver n) = Some (tid, delay, n)"
| "retryOf _ = None"

definition scheduledRetries :: "state \<Rightarrow> state \<Rightarrow> (nat \<times> nat \<times> nat) list" where
  "scheduledRetries s s1 = List.map_filter retryOf (drop (length (timers s)) (timers s1))"

lemma scheduledRetries_setupMessageObserver:
  "scheduledRetries s (setupMessageObserver container retryCount s) = (tid, delay, n) # rest
     \<Longrightarrow> n = retryCount + 1 \<and> retryCount < MESSAGE_OBSERVER_MAX_RETRIES"
  by (auto simp: scheduledRetries_def setupMessageObserver_def setTimeout_def clearTimeout_def
      List.map_filter_simps Let_def split: option.splits if_splits)

function retryChain :: "(nat \<Rightarrow> Element option) \<Rightarrow> nat \<Rightarrow> state \<Rightarrow> nat list \<times> state" where
  "retryChain q retryCount s =
     (let s1 = setupMessageObserver (q retryCount) retryCount s
      in case scheduledRetries s s1 of
           [] \<Rightarrow> ([], s1)
         | (tid, delay, n) # _ \<Rightarrow>
             (let (delays, s2) = retryChain q n (clearTimeout tid s1) in (delay # delays, s2)))"
  by pat_completeness auto
termination
  by (relation "measure (\<lambda>(q, retryCount, s). MESSAGE_OBSERVER_MAX_RETRIES - retryCount)")
    (auto dest: scheduledRetries_setupMessageObserver)

declare retryChain.simps [simp del]

section \<open>Events of the page\<close>

text \<open>
  The handlers the content script installs. \<^verbatim>\<open>SETTINGS_CHANGED\<close> runs
  \<^verbatim>\<open>syncFeatures\<close>; \<^verbatim>\<open>FEATURE_TOGGLE\<close> activates or deactivates one key; a pending
  timer fires; the browser reports a mutation under a node; \<^verbatim>\<open>popstate\<close>,
  \<^verbatim>\<open>hashchange\<close> and the interval run \<^verbatim>\<open>checkNavigation\<close>. An exception that
  leaves a handler is reported by the browser and the page goes on with the state reached.
\<close>

definition onFeatureToggle :: "FeatureKey \<Rightarrow> bool \<Rightarrow> VoyagerSettings \<Rightarrow> state \<Rightarrow> outcome \<times> state" where
  "onFeatureToggle k enabled settings s =
     (case (if enabled then activateFeature k settings s else deactivateFeature k s) of
        (Throws, s') \<Rightarrow> (Throws, s')
      | (Returns, s') \<Rightarrow>
          (if k = ''folders'' then setSidebarPinningEnabled enabled s' else (Returns, s')))"

definition onTimer :: "nat \<Rightarrow> string \<Rightarrow> Element option \<Rightarrow> state \<Rightarrow> outcome \<times> state" where
  "onTimer tid currentPath container s =
     (case find (\<lambda>(i, _, _). i = tid) (timers s) of
        None \<Rightarrow> (Returns, s)
      | Some (_, _, f) \<Rightarrow>
          (case f of
             TCheckNavigation \<Rightarrow> checkNavigation currentPath (clearTimeout tid s)
           | TSetupMessageObserver n \<Rightarrow>
               (Returns, setupMessageObserver container n (clearTimeout tid s))
           | TApplySidebarPinning \<Rightarrow> (Returns, clearTimeout tid s)
           | TOnMutation c \<Rightarrow> onMutation c (clearTimeout tid s)))"

definition onDomMutation :: "Node \<Rightarrow> state \<Rightarrow> state" where
  "onDomMutation n s =
     fold (\<lambda>oid s'. debounced oid (callback (heap (DOM s) ! oid)) s') (notified n (DOM s)) s"

datatype event =
    SettingsChanged VoyagerSettings
  | FeatureToggle FeatureKey bool VoyagerSettings
  | Navigation string
  | Timer nat string "Element option"
  | Mutation Node

fun handle :: "event \<Rightarrow> state \<Rightarrow> state" where
  "handle (SettingsChanged settings) s = snd (syncFeatures settings s)"
| "handle (FeatureToggle k enabled settings) s = snd (onFeatureToggle k enabled settings s)"
| "handle (Navigation currentPath) s = snd (checkNavigation currentPath s)"
| "handle (Timer tid currentPath container) s = snd (onTimer tid currentPath container s)"
| "handle (Mutation n) s = onDomMutation n s"

definition run :: "event list \<Rightarrow> state \<Rightarrow> state" where
  "run evs s = fold handle evs s"

text \<open>An event that may activate key \<open>k\<close>.\<close>

fun activates :: "FeatureKey \<Rightarrow> event \<Rightarrow> bool" where
  "activates k (SettingsChanged settings) = ((k, True) \<in> set (featureToggles settings))"
| "activates k (FeatureToggle k' enabled settings) = (k' = k \<and> enabled)"
| "activates k _ = False"

text \<open>Counting the calls of the trace.\<close>

fun isInit :: "FeatureKey \<Rightarrow> call \<Rightarrow> bool" where
  "isInit k (Init k' _) = (k' = k)"
| "isInit k _ = False"

definition initCalls :: "FeatureKey \<Rightarrow> call list \<Rightarrow> nat" where
  "initCalls k cs = length (filter (isInit k) cs)"

definition destroyCalls :: "FeatureKey \<Rightarrow> call list \<Rightarrow> nat" where
  "destroyCalls k cs = length (filter (\<lambda>c. c = Destroy k) cs)"

section \<open>Example modules and states\<close>

definition defaultSettings :: VoyagerSettings where
  "defaultSettings =
     \<lparr>uiLocale = En,
      featureToggles = [(''timeline'', False), (''folders'', False)],
      chatWidth = 800, schemaVersion = 1\<rparr>"

definition quietModule :: "FeatureKey \<Rightarrow> FeatureModule" where
  "quietModule k =
     \<lparr>key = k, init = (\<lambda>_ _. Returns), destroy = (\<lambda>_. Returns),
      onNavigate = Some (\<lambda>_ _. Returns), onMessagesChanged = Some (\<lambda>_ _. Returns)\<rparr>"

definition crashingModule :: "FeatureKey \<Rightarrow> FeatureModule" where
  "crashingModule k =
     \<lparr>key = k, init = (\<lambda>_ _. Throws), destroy = (\<lambda>_. Throws),
      onNavigate = Some (\<lambda>_ _. Throws), onMessagesChanged = Some (\<lambda>_ _. Throws)\<rparr>"

definition emptyState :: state where
  "emptyState =
     \<lparr>features = Map.empty, activeFeatures = [], lastPath = ''/new'',
      messageObserverRetryTimer = None, sidebarPinningEnabled = False,
      timers = [], nextTimerId = 1, DOM = noObservers, debounceTimer = Map.empty, calls = []\<rparr>"

text \<open>
  Two registries: in \<open>crashingTimeline\<close> every hook of the timeline module throws, in
  \<open>quietFeatures\<close> no hook throws. \<open>allEnabled\<close> enables both keys.
\<close>

definition crashingTimeline :: state where
  "crashingTimeline =
     registerFeature (quietModule ''folders'')
       (registerFeature (crashingModule ''timeline'') emptyState)"

definition quietFeatures :: state where
  "quietFeatures =
     registerFeature (quietModule ''folders'')
       (registerFeature (quietModule ''timeline'') emptyState)"

definition allEnabled :: VoyagerSettings where
  "allEnabled = defaultSettings\<lparr>featureToggles := [(''timeline'', True), (''folders'', True)]\<rparr>"

definition timelineActive :: state where
  "timelineActive = crashingTimeline\<lparr>activeFeatures := [''timeline'']\<rparr>"

definition timelineOn :: state where
  "timelineOn = quietFeatures\<lparr>activeFeatures := [''timeline'']\<rparr>"

definition swapped :: VoyagerSettings where
  "swapped = defaultSettings\<lparr>featureToggles := [(''timeline'', False), (''folders'', True)]\<rparr>"

text \<open>Whether the module registered under a key has the optional hook; counting its calls.\<close>

definition implementsOnNavigate :: "state \<Rightarrow> FeatureKey \<Rightarrow> bool" where
  "implementsOnNavigate s k =
     (case features s k of None \<Rightarrow> False | Some m \<Rightarrow> onNavigate m \<noteq> None)"

fun isOnNavigate :: "FeatureKey \<Rightarrow> call \<Rightarrow> bool" where
  "isOnNavigate k (OnNavigate k' _) = (k' = k)"
| "isOnNavigate k _ = False"

definition navigateCalls :: "FeatureKey \<Rightarrow> call list \<Rightarrow> nat" where
  "navigateCalls k cs = length (filter (isOnNavigate k) cs)"

definition bothActive :: state where
  "bothActive = crashingTimeline\<lparr>activeFeatures := [''timeline'', ''folders'']\<rparr>"

text \<open>
  The invariant of the observer registry: no name twice; every entry points to a connected
  observer created under the entry's name; every connected observer is the entry of its
  name.
\<close>

definition registryOk :: "'cb DOMService \<Rightarrow> bool" where
  "registryOk d =
     (distinct (map fst (observers d))
      \<and> (\<forall>name e. map_of (observers d) name = Some e \<longrightarrow>
            observer e < length (heap d) \<and> createdAs (heap d ! observer e) = name
            \<and> observing (heap d ! observer e) \<noteq> [])
      \<and> (\<forall>oid < length (heap d). observing (heap d ! oid) \<noteq> [] \<longrightarrow>
            (\<exists>e. map_of (observers d) (createdAs (heap d ! oid)) = Some e \<and> observer e = oid)))"

fun isOnMessagesChanged :: "FeatureKey \<Rightarrow> call \<Rightarrow> bool" where
  "isOnMessagesChanged k (OnMessagesChanged k' _) = (k' = k)"
| "isOnMessagesChanged k _ = False"

definition messagesChangedCalls :: "FeatureKey \<Rightarrow> call list \<Rightarrow> nat" where
  "messagesChangedCalls k cs = length (filter (isOnMessagesChanged k) cs)"

text \<open>
  \<open>untouched k s s'\<close>: from \<open>s\<close> to \<open>s'\<close> the key \<open>k\<close> kept its place in or out
  of the active set and got no \<^verbatim>\<open>destroy\<close> and no \<^verbatim>\<open>onMessagesChanged\<close> call.
\<close>

definition untouched :: "FeatureKey \<Rightarrow> state \<Rightarrow> state \<Rightarrow> bool" where
  "untouched k s s' =
     ((k \<in> set (activeFeatures s')) = (k \<in> set (activeFeatures s))
      \<and> destroyCalls k (calls s') = destroyCalls k (calls s)
      \<and> messagesChangedCalls k (calls s') = messagesChangedCalls k (calls s))"

text \<open>Both quiet features Active and the message observer installed on container 7.\<close>

definition watching :: state where
  "watching =
     setupMessageObserver (Some 7) 0 (quietFeatures\<lparr>activeFeatures := [''timeline'', ''folders'']\<rparr>)"

text \<open>
  A module whose \<^verbatim>\<open>init\<close> throws only when nothing was called before it; a registry
  with it; a registry where every hook of both modules throws; and the registry
  \<open>crashingTimeline\<close> with folders already Active.
\<close>

definition flakyModule :: "FeatureKey \<Rightarrow> FeatureModule" where
  "flakyModule k =
     \<lparr>key = k, init = (\<lambda>h _. if h = [] then Throws else Returns), destroy = (\<lambda>_. Returns),
      onNavigate = None, onMessagesChanged = None\<rparr>"

definition flakyFolders :: state where
  "flakyFolders =
     registerFeature (flakyModule ''folders'')
       (registerFeature (crashingModule ''timeline'') emptyState)"

definition crashingFeatures :: state where
  "crashingFeatures =
     registerFeature (crashingModule ''folders'')
       (registerFeature (crashingModule ''timeline'') emptyState)"

definition foldersOn :: state where
  "foldersOn = crashingTimeline\<lparr>activeFeatures := [''folders'']\<rparr>"

section \<open>Theorems\<close>

lemma set_delete_set [simp]: "set (set_delete k xs) = set xs - {k}"
  by (auto simp: set_delete_def)

lemma set_add_set [simp]: "set (set_add k xs) = insert k (set xs)"
  by (auto simp: set_add_def)

subsection \<open>Activation and deactivation\<close>

lemma activateFeature_Returns [simp]: "fst (activateFeature k st s) = Returns"
  by (simp add: activateFeature_def split: option.splits outcome.splits)

lemma deactivateFeature_Returns [simp]: "fst (deactivateFeature k s) = Returns"
  by (simp add: deactivateFeature_def split: option.splits outcome.splits)

lemma activateFeature_features [simp]: "features (snd (activateFeature k st s)) = features s"
  by (simp add: activateFeature_def split: option.splits outcome.splits)

lemma deactivateFeature_features [simp]: "features (snd (deactivateFeature k s)) = features s"
  by (simp add: deactivateFeature_def split: option.splits outcome.splits)

lemma initCalls_append [simp]: "initCalls k (cs @ ds) = initCalls k cs + initCalls k ds"
  by (simp add: initCalls_def)

lemma destroyCalls_append [simp]: "destroyCalls k (cs @ ds) = destroyCalls k cs + destroyCalls k ds"
  by (simp add: destroyCalls_def)

lemma initCalls_single [simp]:
  "initCalls k [Init k' st] = (if k' = k then 1 else 0)"
  "initCalls k [Destroy k'] = 0"
  "initCalls k [] = 0"
  by (simp_all add: initCalls_def)

lemma destroyCalls_single [simp]:
  "destroyCalls k [Destroy k'] = (if k' = k then 1 else 0)"
  "destroyCalls k [Init k' st] = 0"
  "destroyCalls k [] = 0"
  by (simp_all add: destroyCalls_def)

text \<open>What one key sees of the state.\<close>

lemma activateFeature_other:
  assumes "k' \<noteq> k"
  shows "(k \<in> set (activeFeatures (snd (activateFeature k' st s)))) = (k \<in> set (activeFeatures s))"
    and "initCalls k (calls (snd (activateFeature k' st s))) = initCalls k (calls s)"
  using assms by (auto simp add: activateFeature_def split: option.splits outcome.splits)

lemma activateFeature_destroyCalls [simp]:
  "destroyCalls k (calls (snd (activateFeature k' st s))) = destroyCalls k (calls s)"
  by (simp add: activateFeature_def split: option.splits outcome.splits)

lemma deactivateFeature_other:
  assumes "k' \<noteq> k"
  shows "(k \<in> set (activeFeatures (snd (deactivateFeature k' s)))) = (k \<in> set (activeFeatures s))"
    and "destroyCalls k (calls (snd (deactivateFeature k' s))) = destroyCalls k (calls s)"
  using assms by (auto simp add: deactivateFeature_def split: option.splits outcome.splits)

lemma deactivateFeature_initCalls [simp]:
  "initCalls k (calls (snd (deactivateFeature k' s))) = initCalls k (calls s)"
  by (simp add: deactivateFeature_def split: option.splits outcome.splits)


lemma syncLoop_Returns [simp]: "fst (syncLoop ts st s) = Returns"
proof (induction ts arbitrary: s)
  case Nil
  show ?case by simp
next
  case (Cons x ts)
  obtain k en where x: "x = (k, en)" by (cases x)
  show ?case
  proof (cases en)
    case True
    obtain s' where "activateFeature k st s = (Returns, s')"
      by (metis activateFeature_Returns prod.collapse)
    then show ?thesis using Cons.IH x True by simp
  next
    case False
    obtain s' where "deactivateFeature k s = (Returns, s')"
      by (metis deactivateFeature_Returns prod.collapse)
    then show ?thesis using Cons.IH x False by simp
  qed
qed

lemma syncLoop_Cons:
  "snd (syncLoop ((k, en) # ts) st s) =
     snd (syncLoop ts st (snd (if en then activateFeature k st s else deactivateFeature k s)))"
proof (cases en)
  case True
  obtain s' where "activateFeature k st s = (Returns, s')"
    by (metis activateFeature_Returns prod.collapse)
  then show ?thesis using True by simp
next
  case False
  obtain s' where "deactivateFeature k s = (Returns, s')"
    by (metis deactivateFeature_Returns prod.collapse)
  then show ?thesis using False by simp
qed

lemma syncLoop_features [simp]: "features (snd (syncLoop ts st s)) = features s"
proof (induction ts arbitrary: s)
  case Nil
  show ?case by simp
next
  case (Cons x ts)
  obtain k en where x: "x = (k, en)" by (cases x)
  show ?case unfolding x syncLoop_Cons by (simp add: Cons.IH)
qed

lemma syncLoop_other:
  assumes "k \<notin> fst ` set ts"
  shows "(k \<in> set (activeFeatures (snd (syncLoop ts st s)))) = (k \<in> set (activeFeatures s))
       \<and> initCalls k (calls (snd (syncLoop ts st s))) = initCalls k (calls s)
       \<and> destroyCalls k (calls (snd (syncLoop ts st s))) = destroyCalls k (calls s)"
  using assms
proof (induction ts arbitrary: s)
  case Nil
  show ?case by simp
next
  case (Cons x ts)
  obtain k' en where x: "x = (k', en)" by (cases x)
  from Cons.prems x have ne: "k' \<noteq> k" and rest: "k \<notin> fst ` set ts" by auto
  show ?case unfolding x syncLoop_Cons
    using Cons.IH [OF rest] ne
    by (simp add: activateFeature_other deactivateFeature_other)
qed

lemma syncLoop_append:
  "snd (syncLoop (xs @ ys) st s) = snd (syncLoop ys st (snd (syncLoop xs st s)))"
proof (induction xs arbitrary: s)
  case Nil
  show ?case by simp
next
  case (Cons x xs)
  obtain k en where x: "x = (k, en)" by (cases x)
  show ?case using Cons.IH unfolding x by (simp add: syncLoop_Cons del: syncLoop.simps)
qed


lemma syncLoop_key:
  assumes "distinct (map fst ts)" and "(k, en) \<in> set ts"
  obtains s0 where "features s0 = features s"
    and "(k \<in> set (activeFeatures s0)) = (k \<in> set (activeFeatures s))"
    and "initCalls k (calls s0) = initCalls k (calls s)"
    and "destroyCalls k (calls s0) = destroyCalls k (calls s)"
    and "(k \<in> set (activeFeatures (snd (syncLoop ts st s)))) =
         (k \<in> set (activeFeatures (snd (if en then activateFeature k st s0 else deactivateFeature k s0))))"
    and "initCalls k (calls (snd (syncLoop ts st s))) =
         initCalls k (calls (snd (if en then activateFeature k st s0 else deactivateFeature k s0)))"
    and "destroyCalls k (calls (snd (syncLoop ts st s))) =
         destroyCalls k (calls (snd (if en then activateFeature k st s0 else deactivateFeature k s0)))"
proof -
  from assms(2) obtain pre post where ts: "ts = pre @ (k, en) # post"
    by (auto dest: split_list)
  with assms(1) have pre: "k \<notin> fst ` set pre" and post: "k \<notin> fst ` set post"
    by auto
  define s0 where "s0 = snd (syncLoop pre st s)"
  define s1 where "s1 = snd (if en then activateFeature k st s0 else deactivateFeature k s0)"
  have end_eq: "snd (syncLoop ts st s) = snd (syncLoop post st s1)"
    unfolding ts s0_def s1_def by (simp only: syncLoop_append syncLoop_Cons)
  show thesis
  proof (rule that [of s0])
    show "features s0 = features s" by (simp add: s0_def)
    show "(k \<in> set (activeFeatures s0)) = (k \<in> set (activeFeatures s))"
      using syncLoop_other [OF pre, of st s] by (simp add: s0_def)
    show "initCalls k (calls s0) = initCalls k (calls s)"
      using syncLoop_other [OF pre, of st s] by (simp add: s0_def)
    show "destroyCalls k (calls s0) = destroyCalls k (calls s)"
      using syncLoop_other [OF pre, of st s] by (simp add: s0_def)
    show "(k \<in> set (activeFeatures (snd (syncLoop ts st s)))) =
         (k \<in> set (activeFeatures (snd (if en then activateFeature k st s0 else deactivateFeature k s0))))"
      using syncLoop_other [OF post, of st s1] by (simp only: end_eq s1_def)
    show "initCalls k (calls (snd (syncLoop ts st s))) =
         initCalls k (calls (snd (if en then activateFeature k st s0 else deactivateFeature k s0)))"
      using syncLoop_other [OF post, of st s1] by (simp only: end_eq s1_def)
    show "destroyCalls k (calls (snd (syncLoop ts st s))) =
         destroyCalls k (calls (snd (if en then activateFeature k st s0 else deactivateFeature k s0)))"
      using syncLoop_other [OF post, of st s1] by (simp only: end_eq s1_def)
  qed
qed

text \<open>One step on the key itself.\<close>

lemma activateFeature_self:
  "initCalls k (calls (snd (activateFeature k st s))) =
     initCalls k (calls s) + (if k \<notin> set (activeFeatures s) \<and> features s k \<noteq> None then 1 else 0)"
  "k \<in> set (activeFeatures s) \<Longrightarrow> k \<in> set (activeFeatures (snd (activateFeature k st s)))"
  "features s k = Some m \<Longrightarrow> \<forall>h. init m h st = Returns
     \<Longrightarrow> k \<in> set (activeFeatures (snd (activateFeature k st s)))"
  "features s k = Some m \<Longrightarrow> \<forall>h. init m h st = Throws \<Longrightarrow> k \<notin> set (activeFeatures s)
     \<Longrightarrow> k \<notin> set (activeFeatures (snd (activateFeature k st s)))"
  by (auto simp add: activateFeature_def split: option.splits outcome.splits)

lemma deactivateFeature_self:
  "k \<notin> set (activeFeatures (snd (deactivateFeature k s)))"
  "destroyCalls k (calls (snd (deactivateFeature k s))) =
     destroyCalls k (calls s) + (if k \<in> set (activeFeatures s) \<and> features s k \<noteq> None then 1 else 0)"
  by (auto simp add: deactivateFeature_def split: option.splits outcome.splits)

lemma syncFeatures_fields [simp]:
  "fst (syncFeatures st s) = Returns"
  "activeFeatures (snd (syncFeatures st s)) = activeFeatures (snd (syncLoop (featureToggles st) st s))"
  "calls (snd (syncFeatures st s)) = calls (snd (syncLoop (featureToggles st) st s))"
  "features (snd (syncFeatures st s)) = features s"
proof -
  obtain s' where s': "syncLoop (featureToggles st) st s = (Returns, s')"
    by (metis syncLoop_Returns prod.collapse)
  have f: "features s' = features s" using syncLoop_features [of "featureToggles st" st s] s' by simp
  show "fst (syncFeatures st s) = Returns"
    "activeFeatures (snd (syncFeatures st s)) = activeFeatures (snd (syncLoop (featureToggles st) st s))"
    "calls (snd (syncFeatures st s)) = calls (snd (syncLoop (featureToggles st) st s))"
    "features (snd (syncFeatures st s)) = features s"
    using s' f by (simp_all add: syncFeatures_def setSidebarPinningEnabled_def)
qed

text \<open>The loop seen from one key of the configuration.\<close>

lemma syncLoop_at:
  assumes "distinct (map fst (featureToggles st))" and "(k, en) \<in> set (featureToggles st)"
  shows "features (reachedAt k st s) = features s"
    and "(k \<in> set (activeFeatures (reachedAt k st s))) = (k \<in> set (activeFeatures s))"
    and "initCalls k (calls (reachedAt k st s)) = initCalls k (calls s)"
    and "destroyCalls k (calls (reachedAt k st s)) = destroyCalls k (calls s)"
    and "(k \<in> set (activeFeatures (snd (syncFeatures st s)))) =
         (k \<in> set (activeFeatures (snd (if en then activateFeature k st (reachedAt k st s)
                                         else deactivateFeature k (reachedAt k st s)))))"
    and "initCalls k (calls (snd (syncFeatures st s))) =
         initCalls k (calls (snd (if en then activateFeature k st (reachedAt k st s)
                                  else deactivateFeature k (reachedAt k st s))))"
    and "destroyCalls k (calls (snd (syncFeatures st s))) =
         destroyCalls k (calls (snd (if en then activateFeature k st (reachedAt k st s)
                                     else deactivateFeature k (reachedAt k st s))))"
proof -
  from assms(2) obtain pre post where ts: "featureToggles st = pre @ (k, en) # post"
    by (auto dest: split_list)
  with assms(1) have pre: "k \<notin> fst ` set pre" and post: "k \<notin> fst ` set post"
    by auto
  have "takeWhile (\<lambda>(k', _). k' \<noteq> k) (pre @ (k, en) # post) = pre"
    using pre by (subst takeWhile_append2) (auto simp: rev_image_eqI)
  then have s0: "reachedAt k st s = snd (syncLoop pre st s)"
    by (simp add: reachedAt_def ts)
  define s1 where "s1 = snd (if en then activateFeature k st (reachedAt k st s)
                             else deactivateFeature k (reachedAt k st s))"
  have end_eq: "snd (syncLoop (featureToggles st) st s) = snd (syncLoop post st s1)"
    unfolding ts s0 s1_def by (simp only: syncLoop_append syncLoop_Cons)
  show "features (reachedAt k st s) = features s" by (simp add: s0)
  show "(k \<in> set (activeFeatures (reachedAt k st s))) = (k \<in> set (activeFeatures s))"
    using syncLoop_other [OF pre, of st s] by (simp add: s0)
  show "initCalls k (calls (reachedAt k st s)) = initCalls k (calls s)"
    using syncLoop_other [OF pre, of st s] by (simp add: s0)
  show "destroyCalls k (calls (reachedAt k st s)) = destroyCalls k (calls s)"
    using syncLoop_other [OF pre, of st s] by (simp add: s0)
  show "(k \<in> set (activeFeatures (snd (syncFeatures st s)))) =
         (k \<in> set (activeFeatures (snd (if en then activateFeature k st (reachedAt k st s)
                                         else deactivateFeature k (reachedAt k st s)))))"
    using syncLoop_other [OF post, of st s1] by (simp add: end_eq s1_def)
  show "initCalls k (calls (snd (syncFeatures st s))) =
         initCalls k (calls (snd (if en then activateFeature k st (reachedAt k st s)
                                  else deactivateFeature k (reachedAt k st s))))"
    using syncLoop_other [OF post, of st s1] by (simp add: end_eq s1_def)
  show "destroyCalls k (calls (snd (syncFeatures st s))) =
         destroyCalls k (calls (snd (if en then activateFeature k st (reachedAt k st s)
                                     else deactivateFeature k (reachedAt k st s))))"
    using syncLoop_other [OF post, of st s1] by (simp add: end_eq s1_def)
qed

lemma activateFeature_at_call:
  "features s k = Some m \<Longrightarrow> k \<notin> set (activeFeatures s)
     \<Longrightarrow> (k \<in> set (activeFeatures (snd (activateFeature k st s)))) = (init m (calls s) st = Returns)"
  by (cases "init m (calls s) st") (simp_all add: activateFeature_def)

lemmas eval_defs = syncFeatures_def activateFeature_def deactivateFeature_def
  setSidebarPinningEnabled_def crashingTimeline_def quietFeatures_def registerFeature_def
  emptyState_def crashingModule_def quietModule_def allEnabled_def defaultSettings_def
  set_add_def set_delete_def initCalls_def destroyCalls_def reachedAt_def flakyModule_def
  flakyFolders_def crashingFeatures_def foldersOn_def

text \<open>
  C4, as amended. For a registered, Inactive key whose \<^verbatim>\<open>init\<close> returns, the first
  \<^verbatim>\<open>activateFeature\<close> calls \<^verbatim>\<open>init\<close> and makes the key Active, and a second
  call (with any settings) returns the state unchanged: the two calls make exactly one
  \<^verbatim>\<open>init\<close> call. (When \<^verbatim>\<open>init\<close> throws the key stays Inactive and the second
  call calls \<^verbatim>\<open>init\<close> again: the counterexample.)
\<close>

theorem activateFeature_idempotent:
  assumes "features s k = Some m"
    and "k \<notin> set (activeFeatures s)"
    and "init m (calls s) settings = Returns"
  shows "fst (activateFeature k settings s) = Returns
       \<and> k \<in> set (activeFeatures (snd (activateFeature k settings s)))
       \<and> calls (snd (activateFeature k settings s)) = calls s @ [Init k settings]
       \<and> activateFeature k settings' (snd (activateFeature k settings s)) =
           (Returns, snd (activateFeature k settings s))
       \<and> initCalls k (calls (snd (activateFeature k settings'
                                     (snd (activateFeature k settings s))))) =
           initCalls k (calls s) + 1"
proof -
  obtain s' where s': "activateFeature k settings s = (Returns, s')"
    and act: "activeFeatures s' = set_add k (activeFeatures s)"
    and cs: "calls s' = calls s @ [Init k settings]"
    using assms by (simp add: activateFeature_def)
  have there: "k \<in> set (activeFeatures s')" by (simp add: act)
  then have again: "activateFeature k settings' s' = (Returns, s')"
    by (simp add: activateFeature_def)
  show ?thesis using s' there cs again by simp
qed

theorem activateFeature_idempotent_witness:
  "features quietFeatures ''timeline'' = Some (quietModule ''timeline'')
   \<and> ''timeline'' \<notin> set (activeFeatures quietFeatures)
   \<and> init (quietModule ''timeline'') (calls quietFeatures) allEnabled = Returns
   \<and> activeFeatures (snd (activateFeature ''timeline'' allEnabled quietFeatures)) = [''timeline'']
   \<and> initCalls ''timeline''
        (calls (snd (activateFeature ''timeline'' allEnabled
                      (snd (activateFeature ''timeline'' allEnabled quietFeatures))))) = 1"
  using activateFeature_idempotent
    [of quietFeatures "''timeline''" "quietModule ''timeline''" allEnabled allEnabled]
  by (simp add: eval_defs)

theorem activateFeature_idempotent_counterexample:
  "features crashingTimeline ''timeline'' = Some (crashingModule ''timeline'')
   \<and> activeFeatures crashingTimeline = []
   \<and> activeFeatures (snd (activateFeature ''timeline'' allEnabled
                      (snd (activateFeature ''timeline'' allEnabled crashingTimeline)))) = []
   \<and> initCalls ''timeline''
        (calls (snd (activateFeature ''timeline'' allEnabled
                      (snd (activateFeature ''timeline'' allEnabled crashingTimeline))))) = 2"
  by (simp add: eval_defs)

text \<open>
  C5. For an Active key with a registered module, \<^verbatim>\<open>deactivateFeature\<close> calls
  \<^verbatim>\<open>destroy\<close> once and removes the key from the active set whether \<^verbatim>\<open>destroy\<close>
  returns or throws, no exception escapes, and deactivating again changes nothing: the two
  calls together make exactly one \<^verbatim>\<open>destroy\<close> call.
\<close>

theorem deactivateFeature_fails_forward:
  assumes "k \<in> set (activeFeatures s)" and "features s k = Some m"
  shows "fst (deactivateFeature k s) = Returns
       \<and> k \<notin> set (activeFeatures (snd (deactivateFeature k s)))
       \<and> calls (snd (deactivateFeature k s)) = calls s @ [Destroy k]
       \<and> deactivateFeature k (snd (deactivateFeature k s)) = (Returns, snd (deactivateFeature k s))
       \<and> destroyCalls k (calls (snd (deactivateFeature k (snd (deactivateFeature k s)))))
           = destroyCalls k (calls s) + 1"
proof -
  obtain s' where s': "deactivateFeature k s = (Returns, s')"
    and act: "activeFeatures s' = set_delete k (activeFeatures s)"
    and cs: "calls s' = calls s @ [Destroy k]"
    using assms by (cases "destroy m (calls s)") (simp_all add: deactivateFeature_def)
  have gone: "k \<notin> set (activeFeatures s')" by (simp add: act)
  then have again: "deactivateFeature k s' = (Returns, s')"
    by (simp add: deactivateFeature_def)
  show ?thesis using s' gone cs again by (simp add: destroyCalls_def)
qed

theorem deactivateFeature_fails_forward_witness:
  "''timeline'' \<in> set (activeFeatures timelineActive)
   \<and> features timelineActive ''timeline'' = Some (crashingModule ''timeline'')
   \<and> destroy (crashingModule ''timeline'') (calls timelineActive) = Throws
   \<and> fst (deactivateFeature ''timeline'' timelineActive) = Returns
   \<and> ''timeline'' \<notin> set (activeFeatures (snd (deactivateFeature ''timeline'' timelineActive)))
   \<and> calls (snd (deactivateFeature ''timeline'' timelineActive)) = [Destroy ''timeline'']
   \<and> destroyCalls ''timeline''
        (calls (snd (deactivateFeature ''timeline''
                      (snd (deactivateFeature ''timeline'' timelineActive))))) = 1"
  using deactivateFeature_fails_forward
    [of "''timeline''" timelineActive "crashingModule ''timeline''"]
  by (simp add: timelineActive_def crashingTimeline_def registerFeature_def emptyState_def
      crashingModule_def quietModule_def destroyCalls_def)

subsection \<open>Reconciliation\<close>

text \<open>
  C1, as amended. In a reconciliation, let \<open>A\<close> be registered, enabled and Inactive, and
  let its \<^verbatim>\<open>init\<close> throw when the loop calls it. \<^verbatim>\<open>syncFeatures\<close> lets no
  exception escape, \<open>A\<close>'s \<^verbatim>\<open>init\<close> was called once and \<open>A\<close> is not in the active
  set. Every other registered, enabled key \<open>B\<close> is handled as if \<open>A\<close> had not failed,
  wherever the two keys stand in the configuration: \<open>B\<close>'s \<^verbatim>\<open>init\<close> is called exactly
  once if \<open>B\<close> was Inactive and not at all if it was Active, and \<open>B\<close> ends Active exactly
  when it was Active before or its \<^verbatim>\<open>init\<close> returns at its call. (An Active \<open>B\<close> gets no
  \<^verbatim>\<open>init\<close> call, and a \<open>B\<close> whose own \<^verbatim>\<open>init\<close> throws stays Inactive: the
  counterexample.)
\<close>

theorem syncFeatures_isolation:
  assumes "distinct (map fst (featureToggles settings))"
    and "(A, True) \<in> set (featureToggles settings)"
    and "features s A = Some mA"
    and "A \<notin> set (activeFeatures s)"
    and "init mA (calls (reachedAt A settings s)) settings = Throws"
    and "B \<noteq> A"
    and "(B, True) \<in> set (featureToggles settings)"
    and "features s B = Some mB"
  shows "fst (syncFeatures settings s) = Returns
       \<and> A \<notin> set (activeFeatures (snd (syncFeatures settings s)))
       \<and> initCalls A (calls (snd (syncFeatures settings s))) = initCalls A (calls s) + 1
       \<and> initCalls B (calls (snd (syncFeatures settings s))) =
           initCalls B (calls s) + (if B \<in> set (activeFeatures s) then 0 else 1)
       \<and> (B \<in> set (activeFeatures (snd (syncFeatures settings s)))) =
           (B \<in> set (activeFeatures s)
            \<or> init mB (calls (reachedAt B settings s)) settings = Returns)"
proof -
  note a = syncLoop_at [OF assms(1) assms(2), of s]
  note b = syncLoop_at [OF assms(1) assms(7), of s]
  let ?a = "reachedAt A settings s" and ?b = "reachedAt B settings s"
  have regA: "features ?a A = Some mA" and inA: "A \<notin> set (activeFeatures ?a)"
    using a(1,2) assms(3,4) by simp_all
  have regB: "features ?b B = Some mB" using b(1) assms(8) by simp
  have A1: "A \<notin> set (activeFeatures (snd (activateFeature A settings ?a)))"
    using activateFeature_at_call [OF regA inA, of settings] assms(5) by simp
  have A2: "initCalls A (calls (snd (activateFeature A settings ?a))) = initCalls A (calls s) + 1"
    using activateFeature_self(1) [of A settings ?a] regA inA a(3) by simp
  have B2: "initCalls B (calls (snd (activateFeature B settings ?b))) =
      initCalls B (calls s) + (if B \<in> set (activeFeatures s) then 0 else 1)"
    using activateFeature_self(1) [of B settings ?b] regB b(2,3) by simp
  have B1: "(B \<in> set (activeFeatures (snd (activateFeature B settings ?b)))) =
      (B \<in> set (activeFeatures s) \<or> init mB (calls ?b) settings = Returns)"
  proof (cases "B \<in> set (activeFeatures s)")
    case True
    then have "B \<in> set (activeFeatures ?b)" using b(2) by simp
    then show ?thesis using True activateFeature_self(2) [of B ?b settings] by simp
  next
    case False
    then have "B \<notin> set (activeFeatures ?b)" using b(2) by simp
    from activateFeature_at_call [OF regB this, of settings] False show ?thesis by simp
  qed
  have "fst (syncFeatures settings s) = Returns" by simp
  moreover have "A \<notin> set (activeFeatures (snd (syncFeatures settings s)))"
    using a(5) A1 by (simp only: if_True) simp
  moreover have "initCalls A (calls (snd (syncFeatures settings s))) = initCalls A (calls s) + 1"
    using a(6) A2 by (simp only: if_True)
  moreover have "initCalls B (calls (snd (syncFeatures settings s))) =
           initCalls B (calls s) + (if B \<in> set (activeFeatures s) then 0 else 1)"
    using b(6) B2 by (simp only: if_True)
  moreover have "(B \<in> set (activeFeatures (snd (syncFeatures settings s)))) =
           (B \<in> set (activeFeatures s)
            \<or> init mB (calls (reachedAt B settings s)) settings = Returns)"
    using b(5) B1 by (simp only: if_True)
  ultimately show ?thesis by blast
qed

theorem syncFeatures_isolation_witness:
  "distinct (map fst (featureToggles allEnabled))
   \<and> features flakyFolders ''timeline'' = Some (crashingModule ''timeline'')
   \<and> features flakyFolders ''folders'' = Some (flakyModule ''folders'')
   \<and> activeFeatures flakyFolders = []
   \<and> init (crashingModule ''timeline'') (calls (reachedAt ''timeline'' allEnabled flakyFolders))
        allEnabled = Throws
   \<and> init (flakyModule ''folders'') (calls (reachedAt ''folders'' allEnabled flakyFolders))
        allEnabled = Returns
   \<and> init (flakyModule ''folders'') [] allEnabled = Throws
   \<and> fst (syncFeatures allEnabled flakyFolders) = Returns
   \<and> activeFeatures (snd (syncFeatures allEnabled flakyFolders)) = [''folders'']
   \<and> calls (snd (syncFeatures allEnabled flakyFolders)) =
       [Init ''timeline'' allEnabled, Init ''folders'' allEnabled]"
  using syncFeatures_isolation [of allEnabled "''timeline''" flakyFolders
      "crashingModule ''timeline''" "''folders''" "flakyModule ''folders''"]
  by (simp add: eval_defs)

theorem syncFeatures_isolation_counterexample:
  "features foldersOn ''timeline'' = Some (crashingModule ''timeline'')
   \<and> features foldersOn ''folders'' = Some (quietModule ''folders'')
   \<and> (''folders'', True) \<in> set (featureToggles allEnabled)
   \<and> calls (snd (syncFeatures allEnabled foldersOn)) = [Init ''timeline'' allEnabled]
   \<and> initCalls ''folders'' (calls (snd (syncFeatures allEnabled foldersOn))) = 0
   \<and> features crashingFeatures ''timeline'' = Some (crashingModule ''timeline'')
   \<and> features crashingFeatures ''folders'' = Some (crashingModule ''folders'')
   \<and> calls (snd (syncFeatures allEnabled crashingFeatures)) =
       [Init ''timeline'' allEnabled, Init ''folders'' allEnabled]
   \<and> ''folders'' \<notin> set (activeFeatures (snd (syncFeatures allEnabled crashingFeatures)))"
  by (simp add: eval_defs)

text \<open>
  C2, as amended. For a configuration with the key \<open>k\<close> and a state whose active keys are
  all registered, \<^verbatim>\<open>syncFeatures\<close> calls \<open>k\<close>'s \<^verbatim>\<open>init\<close> exactly once when
  \<open>k\<close> is enabled, registered and was Inactive, and not at all otherwise; it calls
  \<open>k\<close>'s \<^verbatim>\<open>destroy\<close> exactly once when \<open>k\<close> is disabled and was Active, and not at
  all otherwise; a disabled key ends Inactive; an enabled key that was Active stays Active;
  an enabled, registered key that was Inactive ends Active exactly when its \<^verbatim>\<open>init\<close>
  returns at the call the loop makes; an enabled key that is not registered stays Inactive.
  (When \<^verbatim>\<open>init\<close> throws the key stays Inactive: the counterexample.)
\<close>

theorem syncFeatures_reconciles:
  assumes "distinct (map fst (featureToggles settings))"
    and "set (activeFeatures s) \<subseteq> dom (features s)"
    and "(k, enabled) \<in> set (featureToggles settings)"
  shows "fst (syncFeatures settings s) = Returns
       \<and> initCalls k (calls (snd (syncFeatures settings s))) =
           initCalls k (calls s) +
             (if enabled \<and> k \<notin> set (activeFeatures s) \<and> features s k \<noteq> None then 1 else 0)
       \<and> destroyCalls k (calls (snd (syncFeatures settings s))) =
           destroyCalls k (calls s) + (if \<not> enabled \<and> k \<in> set (activeFeatures s) then 1 else 0)
       \<and> (\<not> enabled \<longrightarrow> k \<notin> set (activeFeatures (snd (syncFeatures settings s))))
       \<and> (enabled \<and> k \<in> set (activeFeatures s)
            \<longrightarrow> k \<in> set (activeFeatures (snd (syncFeatures settings s))))
       \<and> (enabled \<and> k \<notin> set (activeFeatures s) \<and> features s k = Some m
            \<longrightarrow> (k \<in> set (activeFeatures (snd (syncFeatures settings s)))) =
                (init m (calls (reachedAt k settings s)) settings = Returns))
       \<and> (enabled \<and> features s k = None
            \<longrightarrow> k \<notin> set (activeFeatures (snd (syncFeatures settings s))))"
proof -
  note at = syncLoop_at [OF assms(1) assms(3), of s]
  let ?s0 = "reachedAt k settings s"
  have reg: "k \<in> set (activeFeatures s) \<Longrightarrow> features s k \<noteq> None"
    using assms(2) by auto
  show ?thesis
  proof (cases enabled)
    case True
    have c: "initCalls k (calls (snd (activateFeature k settings ?s0))) =
        initCalls k (calls s) + (if k \<notin> set (activeFeatures s) \<and> features s k \<noteq> None then 1 else 0)"
      using activateFeature_self(1) [of k settings ?s0] at(1,2,3) by simp
    have stay: "k \<in> set (activeFeatures s)
        \<Longrightarrow> k \<in> set (activeFeatures (snd (activateFeature k settings ?s0)))"
      using activateFeature_self(2) [of k ?s0 settings] at(2) by simp
    have call: "k \<notin> set (activeFeatures s) \<Longrightarrow> features s k = Some m
        \<Longrightarrow> (k \<in> set (activeFeatures (snd (activateFeature k settings ?s0)))) =
            (init m (calls ?s0) settings = Returns)"
      using activateFeature_at_call [of ?s0 k m settings] at(1,2) by simp
    have none: "features s k = None
        \<Longrightarrow> k \<notin> set (activeFeatures (snd (activateFeature k settings ?s0)))"
      using reg at(1,2) by (auto simp add: activateFeature_def)
    have d: "destroyCalls k (calls (snd (activateFeature k settings ?s0))) = destroyCalls k (calls s)"
      using at(4) by simp
    from True at(5,6,7) c stay call none d show ?thesis by simp
  next
    case False
    have "destroyCalls k (calls (snd (deactivateFeature k ?s0))) =
        destroyCalls k (calls s) + (if k \<in> set (activeFeatures s) then 1 else 0)"
      using deactivateFeature_self(2) [of k ?s0] at(1,2,4) reg by simp
    moreover have "k \<notin> set (activeFeatures (snd (deactivateFeature k ?s0)))"
      by (rule deactivateFeature_self(1))
    moreover have "initCalls k (calls (snd (deactivateFeature k ?s0))) = initCalls k (calls s)"
      using at(3) by simp
    ultimately show ?thesis using False at(5,6,7) by simp
  qed
qed

theorem syncFeatures_reconciles_witness:
  "distinct (map fst (featureToggles swapped))
   \<and> set (activeFeatures timelineOn) \<subseteq> dom (features timelineOn)
   \<and> (''folders'', True) \<in> set (featureToggles swapped)
   \<and> activeFeatures timelineOn = [''timeline'']
   \<and> features timelineOn ''folders'' = Some (quietModule ''folders'')
   \<and> init (quietModule ''folders'') (calls (reachedAt ''folders'' swapped timelineOn)) swapped
       = Returns
   \<and> activeFeatures (snd (syncFeatures swapped timelineOn)) = [''folders'']
   \<and> calls (snd (syncFeatures swapped timelineOn)) = [Destroy ''timeline'', Init ''folders'' swapped]
   \<and> destroyCalls ''timeline'' (calls (snd (syncFeatures swapped timelineOn))) = 1
   \<and> initCalls ''folders'' (calls (snd (syncFeatures swapped timelineOn))) = 1"
  using syncFeatures_reconciles [of swapped timelineOn "''folders''" True "quietModule ''folders''"]
  by (simp add: eval_defs timelineOn_def swapped_def)

theorem syncFeatures_reconciles_counterexample:
  "(''timeline'', True) \<in> set (featureToggles allEnabled)
   \<and> features crashingTimeline ''timeline'' = Some (crashingModule ''timeline'')
   \<and> ''timeline'' \<notin> set (activeFeatures (snd (syncFeatures allEnabled crashingTimeline)))"
  by (simp add: eval_defs)

subsection \<open>Navigation\<close>

lemmas nav_defs = checkNavigation_def setTimeout_def bothActive_def crashingTimeline_def
  registerFeature_def emptyState_def crashingModule_def quietModule_def
  execHere_def matchLiteral_def isHexDash_def toUpperCase_def implementsOnNavigate_def
  navigateCalls_def

lemma checkNavigation_same_path:
  "checkNavigation (lastPath s) s = (Returns, s)"
  by (simp add: checkNavigation_def)

lemma implementsOnNavigate_calls [simp]:
  "implementsOnNavigate (s\<lparr>calls := cs\<rparr>) = implementsOnNavigate s"
  "implementsOnNavigate (s\<lparr>lastPath := p\<rparr>) = implementsOnNavigate s"
  by (simp_all add: implementsOnNavigate_def fun_eq_iff)

lemma notifyNavigate_all:
  assumes "\<forall>k \<in> set ks. \<forall>m f h. features s k = Some m \<longrightarrow> onNavigate m = Some f
            \<longrightarrow> f h cid = Returns"
  shows "notifyNavigate ks cid s =
     (Returns, s\<lparr>calls := calls s @ map (\<lambda>k. OnNavigate k cid) (filter (implementsOnNavigate s) ks)\<rparr>)"
  using assms
proof (induction ks arbitrary: s)
  case Nil
  show ?case by simp
next
  case (Cons k ks)
  have rest: "\<forall>k \<in> set ks. \<forall>m f h. features s k = Some m \<longrightarrow> onNavigate m = Some f
            \<longrightarrow> f h cid = Returns"
    using Cons.prems by simp
  show ?case
  proof (cases "features s k")
    case None
    then show ?thesis using Cons.IH [OF rest]
      by (simp add: implementsOnNavigate_def [of s k])
  next
    case (Some m)
    show ?thesis
    proof (cases "onNavigate m")
      case None
      then show ?thesis using Some Cons.IH [OF rest]
        by (simp add: implementsOnNavigate_def [of s k])
    next
      case f: (Some f)
      have ret: "f (calls s) cid = Returns" using Cons.prems Some f by simp
      let ?s = "s\<lparr>calls := calls s @ [OnNavigate k cid]\<rparr>"
      have "notifyNavigate ks cid ?s =
          (Returns, ?s\<lparr>calls := calls ?s @ map (\<lambda>k. OnNavigate k cid) (filter (implementsOnNavigate ?s) ks)\<rparr>)"
        by (rule Cons.IH) (use rest in simp)
      then show ?thesis using Some f ret
        by (simp add: implementsOnNavigate_def [of s k])
    qed
  qed
qed

lemma checkNavigation_notifies_all:
  assumes "currentPath \<noteq> lastPath s"
    and "\<forall>k \<in> set (activeFeatures s). \<forall>m f h. features s k = Some m
           \<longrightarrow> onNavigate m = Some f \<longrightarrow> f h (getConversationId currentPath) = Returns"
  shows "fst (checkNavigation currentPath s) = Returns"
    and "lastPath (snd (checkNavigation currentPath s)) = currentPath"
    and "calls (snd (checkNavigation currentPath s)) =
          calls s @ map (\<lambda>k. OnNavigate k (getConversationId currentPath))
                      (filter (implementsOnNavigate s) (activeFeatures s))"
proof -
  let ?s1 = "s\<lparr>lastPath := currentPath\<rparr>"
  have n: "notifyNavigate (activeFeatures ?s1) (getConversationId currentPath) ?s1 =
      (Returns, ?s1\<lparr>calls := calls ?s1 @ map (\<lambda>k. OnNavigate k (getConversationId currentPath))
                      (filter (implementsOnNavigate ?s1) (activeFeatures ?s1))\<rparr>)"
    by (rule notifyNavigate_all) (use assms(2) in simp)
  show "fst (checkNavigation currentPath s) = Returns"
    and "lastPath (snd (checkNavigation currentPath s)) = currentPath"
    and "calls (snd (checkNavigation currentPath s)) =
          calls s @ map (\<lambda>k. OnNavigate k (getConversationId currentPath))
                      (filter (implementsOnNavigate s) (activeFeatures s))"
    using assms(1) n by (simp_all add: checkNavigation_def Let_def setTimeout_def)
qed

text \<open>
  C3. The loop of \<^verbatim>\<open>checkNavigation\<close> does not wrap the call of \<^verbatim>\<open>onNavigate\<close>.
  With the timeline and folders features Active and the timeline's \<^verbatim>\<open>onNavigate\<close>
  throwing, a change of path calls the timeline's hook, the exception leaves
  \<^verbatim>\<open>checkNavigation\<close>, the hook of folders is never called, and the timer that would
  re-establish the message observer is not set.
\<close>

theorem checkNavigation_throw_skips_rest:
  "activeFeatures bothActive = [''timeline'', ''folders'']
   \<and> implementsOnNavigate bothActive ''folders''
   \<and> fst (checkNavigation ''/chat/abc'' bothActive) = Throws
   \<and> calls (snd (checkNavigation ''/chat/abc'' bothActive)) = [OnNavigate ''timeline'' (Some ''abc'')]
   \<and> timers (snd (checkNavigation ''/chat/abc'' bothActive)) = []"
  by (simp add: nav_defs)

text \<open>
  C6. On an unchanged path \<^verbatim>\<open>checkNavigation\<close> returns the state as it is
  (\<open>checkNavigation_same_path\<close>), and on a changed path it sets the cursor and, when no
  hook throws, calls \<^verbatim>\<open>onNavigate\<close> once for every Active feature that implements it,
  with the id of the new path (\<open>checkNavigation_notifies_all\<close>). When a hook throws, the
  claim fails: the path changed, folders is Active and implements the hook, and its hook is
  called zero times.
\<close>

theorem checkNavigation_not_once_each:
  "lastPath bothActive \<noteq> ''/chat/abc''
   \<and> ''folders'' \<in> set (activeFeatures bothActive)
   \<and> implementsOnNavigate bothActive ''folders''
   \<and> lastPath (snd (checkNavigation ''/chat/abc'' bothActive)) = ''/chat/abc''
   \<and> navigateCalls ''folders'' (calls (snd (checkNavigation ''/chat/abc'' bothActive))) = 0"
  by (simp add: nav_defs)

subsection \<open>Chat-page helpers\<close>

lemma matchLiteral_chat:
  "matchLiteral ''/chat/'' s = Some rest \<Longrightarrow> rest = drop 6 s \<and> 6 \<le> length s"
  by (auto simp add: matchLiteral_def eval_nat_numeral split: if_splits)

lemma takeWhile_all: "list_all P xs \<Longrightarrow> takeWhile P xs = xs"
  by (induction xs) auto

text \<open>
  C10. If \<^verbatim>\<open>isChatPage\<close> holds of a pathname, \<^verbatim>\<open>getConversationId\<close> returns the
  segment after \<^verbatim>\<open>/chat/\<close>, which is not empty and consists of hex digits and dashes.
  The converse fails: on \<^verbatim>\<open>/chat/abc/extra\<close> the id is \<^verbatim>\<open>abc\<close> and
  \<^verbatim>\<open>isChatPage\<close> is false.
\<close>

theorem isChatPage_getConversationId:
  "(isChatPage p \<longrightarrow>
      getConversationId p = Some (drop 6 p) \<and> drop 6 p \<noteq> [] \<and> list_all isHexDash (drop 6 p))
   \<and> getConversationId ''/chat/abc/extra'' = Some ''abc''
   \<and> \<not> isChatPage ''/chat/abc/extra''"
proof (intro conjI impI)
  assume chat: "isChatPage p"
  then obtain rest where m: "matchLiteral ''/chat/'' p = Some rest"
    and ne: "rest \<noteq> []" and hex: "list_all isHexDash rest"
    by (auto simp: isChatPage_def split: option.splits)
  from m have rest: "rest = drop 6 p" and len: "6 \<le> length p"
    using matchLiteral_chat by blast+
  from len obtain c cs where p: "p = c # cs" by (cases p) auto
  have "execHere p = Some rest"
    using m ne hex by (simp add: execHere_def takeWhile_all)
  then show "getConversationId p = Some (drop 6 p)"
    by (simp add: p rest)
  show "drop 6 p \<noteq> []" using ne rest by simp
  show "list_all isHexDash (drop 6 p)" using hex rest by simp
next
  show "getConversationId ''/chat/abc/extra'' = Some ''abc''"
    by (simp add: execHere_def matchLiteral_def isHexDash_def toUpperCase_def)
  show "\<not> isChatPage ''/chat/abc/extra''"
    by (simp add: isChatPage_def matchLiteral_def isHexDash_def toUpperCase_def)
qed

theorem isChatPage_getConversationId_witness:
  "isChatPage ''/chat/12ab-CD'' \<and> getConversationId ''/chat/12ab-CD'' = Some ''12ab-CD''"
  using isChatPage_getConversationId [of "''/chat/12ab-CD''"]
  by (simp add: isChatPage_def matchLiteral_def isHexDash_def toUpperCase_def)

subsection \<open>The retries of the message observer\<close>

lemma setupMessageObserver_None:
  "setupMessageObserver None n s =
     (if n \<ge> MESSAGE_OBSERVER_MAX_RETRIES then s
      else s\<lparr>timers := timers s @
                 [(nextTimerId s, min (1000 * 2 ^ n) 10000, TSetupMessageObserver (n + 1))],
             nextTimerId := nextTimerId s + 1,
             messageObserverRetryTimer := Some (nextTimerId s)\<rparr>)"
  by (simp add: setupMessageObserver_def setTimeout_def)

lemma retryChain_stop:
  "n \<ge> MESSAGE_OBSERVER_MAX_RETRIES \<Longrightarrow> retryChain (\<lambda>_. None) n s = ([], s)"
  by (subst retryChain.simps)
    (simp add: setupMessageObserver_None scheduledRetries_def List.map_filter_simps)

lemma retryChain_step:
  assumes "n < MESSAGE_OBSERVER_MAX_RETRIES"
  shows "retryChain (\<lambda>_. None) n s =
     (min (1000 * 2 ^ n) 10000 #
        fst (retryChain (\<lambda>_. None) (n + 1)
              (clearTimeout (nextTimerId s) (setupMessageObserver None n s))),
      snd (retryChain (\<lambda>_. None) (n + 1)
              (clearTimeout (nextTimerId s) (setupMessageObserver None n s))))"
  using assms
  by (subst retryChain.simps)
    (simp add: setupMessageObserver_None scheduledRetries_def List.map_filter_simps
      split: prod.splits)

lemma clearTimeout_retry:
  "n < MESSAGE_OBSERVER_MAX_RETRIES \<Longrightarrow>
   set (timers (clearTimeout (nextTimerId s) (setupMessageObserver None n s))) \<subseteq> set (timers s)"
  "DOM (clearTimeout (nextTimerId s) (setupMessageObserver None n s)) = DOM s"
  "activeFeatures (clearTimeout (nextTimerId s) (setupMessageObserver None n s)) = activeFeatures s"
  "calls (clearTimeout (nextTimerId s) (setupMessageObserver None n s)) = calls s"
  by (auto simp add: setupMessageObserver_None clearTimeout_def)

lemma retryChain_never_found_from:
  "fst (retryChain (\<lambda>_. None) n s) =
     map (\<lambda>k. min (1000 * 2 ^ k) 10000) [n ..< MESSAGE_OBSERVER_MAX_RETRIES]
   \<and> set (timers (snd (retryChain (\<lambda>_. None) n s))) \<subseteq> set (timers s)
   \<and> DOM (snd (retryChain (\<lambda>_. None) n s)) = DOM s
   \<and> calls (snd (retryChain (\<lambda>_. None) n s)) = calls s"
proof (induction "MESSAGE_OBSERVER_MAX_RETRIES - n" arbitrary: n s)
  case 0
  then have "n \<ge> MESSAGE_OBSERVER_MAX_RETRIES" by simp
  then show ?case by (simp add: retryChain_stop)
next
  case (Suc d)
  then have lt: "n < MESSAGE_OBSERVER_MAX_RETRIES" and d: "d = MESSAGE_OBSERVER_MAX_RETRIES - (n + 1)"
    by simp_all
  let ?s = "clearTimeout (nextTimerId s) (setupMessageObserver None n s)"
  note ih = Suc.hyps(1) [OF d, of ?s]
  have up: "[n ..< MESSAGE_OBSERVER_MAX_RETRIES] = n # [n + 1 ..< MESSAGE_OBSERVER_MAX_RETRIES]"
    using lt by (simp add: upt_conv_Cons)
  show ?case
    using ih clearTimeout_retry(1) [OF lt, of s] clearTimeout_retry(2-4) [of s n]
    by (auto simp add: retryChain_step [OF lt] up simp del: upt_Suc)
qed

text \<open>
  C7. When \<^verbatim>\<open>DOM.query\<close> never finds the container, the first call of
  \<^verbatim>\<open>setupMessageObserver\<close> is followed by exactly
  \<^verbatim>\<open>MESSAGE_OBSERVER_MAX_RETRIES\<close> = 6 retries; the delay before the retry with count
  \<open>k + 1\<close> is the minimum of \<open>1000 * 2 ^ k\<close> and 10000 milliseconds, for
  \<open>k = 0, ..., 5\<close>; after the last retry no timer is pending that was not pending
  before, and no observer was installed.
\<close>

theorem retryChain_never_found:
  "fst (retryChain (\<lambda>_. None) 0 s) = [1000, 2000, 4000, 8000, 10000, 10000]
   \<and> fst (retryChain (\<lambda>_. None) 0 s) =
       map (\<lambda>k. min (1000 * 2 ^ k) 10000) [0 ..< MESSAGE_OBSERVER_MAX_RETRIES]
   \<and> length (fst (retryChain (\<lambda>_. None) 0 s)) = MESSAGE_OBSERVER_MAX_RETRIES
   \<and> MESSAGE_OBSERVER_MAX_RETRIES = 6
   \<and> set (timers (snd (retryChain (\<lambda>_. None) 0 s))) \<subseteq> set (timers s)
   \<and> DOM (snd (retryChain (\<lambda>_. None) 0 s)) = DOM s"
proof -
  have "map (\<lambda>k. min (1000 * 2 ^ k) 10000) [0 ..< MESSAGE_OBSERVER_MAX_RETRIES]
      = [1000, 2000, 4000, 8000, 10000, 10000::nat]"
    by (simp add: MESSAGE_OBSERVER_MAX_RETRIES_def upt_conv_Cons)
  then show ?thesis
    using retryChain_never_found_from [of 0 s]
    by (simp add: MESSAGE_OBSERVER_MAX_RETRIES_def)
qed

subsection \<open>The observer registry\<close>

lemma map_of_map_set [simp]: "map_of (map_set k v al) = (map_of al)(k \<mapsto> v)"
  by (induction al) (auto simp: fun_eq_iff)

lemma fst_set_map_set [simp]: "fst ` set (map_set k v al) = insert k (fst ` set al)"
proof (induction al)
  case Nil
  show ?case by simp
next
  case (Cons x al)
  obtain k' v' where x: "x = (k', v')" by (cases x)
  show ?case using Cons.IH by (cases "k' = k") (simp_all add: x insert_commute)
qed

lemma distinct_map_set: "distinct (map fst al) \<Longrightarrow> distinct (map fst (map_set k v al))"
  by (induction al) (auto simp: rev_image_eqI)

lemma map_of_map_delete [simp]: "map_of (map_delete k al) = (map_of al)(k := None)"
  by (induction al) (auto simp: map_delete_def fun_eq_iff)

lemma distinct_map_delete: "distinct (map fst al) \<Longrightarrow> distinct (map fst (map_delete k al))"
  by (induction al) (auto simp: map_delete_def)

lemma length_disconnect [simp]: "length (disconnect oid h) = length h"
  by (simp add: disconnect_def)

lemma observing_disconnect:
  "i < length h \<Longrightarrow> observing (disconnect oid h ! i) = (if i = oid then [] else observing (h ! i))"
  by (simp add: disconnect_def nth_list_update)

lemma createdAs_disconnect [simp]:
  "i < length h \<Longrightarrow> createdAs (disconnect oid h ! i) = createdAs (h ! i)"
  by (simp add: disconnect_def nth_list_update)

lemma registryOk_unobserve:
  assumes "registryOk d"
  shows "registryOk (unobserve name d)" and "map_of (observers (unobserve name d)) name = None"
proof -
  show "map_of (observers (unobserve name d)) name = None"
    by (simp add: unobserve_def split: option.splits)
  show "registryOk (unobserve name d)"
  proof (cases "map_of (observers d) name")
    case None
    then show ?thesis using assms by (simp add: unobserve_def)
  next
    case (Some e)
    from assms have dist: "distinct (map fst (observers d))"
      and reg: "\<And>name e. map_of (observers d) name = Some e \<Longrightarrow>
            observer e < length (heap d) \<and> createdAs (heap d ! observer e) = name
            \<and> observing (heap d ! observer e) \<noteq> []"
      and live: "\<And>oid. oid < length (heap d) \<Longrightarrow> observing (heap d ! oid) \<noteq> [] \<Longrightarrow>
            (\<exists>e. map_of (observers d) (createdAs (heap d ! oid)) = Some e \<and> observer e = oid)"
      by (auto simp: registryOk_def)
    have un: "unobserve name d =
        d\<lparr>heap := disconnect (observer e) (heap d), observers := map_delete name (observers d)\<rparr>"
      using Some by (simp add: unobserve_def)
    show ?thesis unfolding un registryOk_def
    proof (intro conjI allI impI)
      show "distinct (map fst (observers (d\<lparr>heap := disconnect (observer e) (heap d),
                observers := map_delete name (observers d)\<rparr>)))"
        using dist by (simp add: distinct_map_delete)
    next
      fix name' e'
      assume a: "map_of (observers (d\<lparr>heap := disconnect (observer e) (heap d),
                observers := map_delete name (observers d)\<rparr>)) name' = Some e'"
      then have ne: "name' \<noteq> name" and m: "map_of (observers d) name' = Some e'"
        by (auto split: if_splits)
      from reg [OF m] reg [OF Some] ne have diff: "observer e' \<noteq> observer e" by auto
      show "observer e' < length (heap (d\<lparr>heap := disconnect (observer e) (heap d),
                observers := map_delete name (observers d)\<rparr>))"
        using reg [OF m] by simp
      show "createdAs (heap (d\<lparr>heap := disconnect (observer e) (heap d),
                observers := map_delete name (observers d)\<rparr>) ! observer e') = name'"
        using reg [OF m] by simp
      show "observing (heap (d\<lparr>heap := disconnect (observer e) (heap d),
                observers := map_delete name (observers d)\<rparr>) ! observer e') \<noteq> []"
        using reg [OF m] diff by (simp add: observing_disconnect)
    next
      fix oid
      assume lt: "oid < length (heap (d\<lparr>heap := disconnect (observer e) (heap d),
                observers := map_delete name (observers d)\<rparr>))"
        and on: "observing (heap (d\<lparr>heap := disconnect (observer e) (heap d),
                observers := map_delete name (observers d)\<rparr>) ! oid) \<noteq> []"
      from lt have lt': "oid < length (heap d)" by simp
      from on lt' have ne: "oid \<noteq> observer e" and on': "observing (heap d ! oid) \<noteq> []"
        by (auto simp: observing_disconnect split: if_splits)
      from live [OF lt' on'] obtain e' where
        e': "map_of (observers d) (createdAs (heap d ! oid)) = Some e'" "observer e' = oid"
        by blast
      have "createdAs (heap d ! oid) \<noteq> name" using e' Some ne by auto
      then show "\<exists>e'. map_of (observers (d\<lparr>heap := disconnect (observer e) (heap d),
                observers := map_delete name (observers d)\<rparr>))
              (createdAs (heap (d\<lparr>heap := disconnect (observer e) (heap d),
                observers := map_delete name (observers d)\<rparr>) ! oid)) = Some e' \<and> observer e' = oid"
        using e' lt' by simp
    qed
  qed
qed


lemma registryOk_observe:
  assumes "registryOk d"
  shows "registryOk (observe name tgt cb d)"
proof -
  define d1 where "d1 = unobserve name d"
  have ok1: "registryOk d1" and free: "map_of (observers d1) name = None"
    using registryOk_unobserve [OF assms, of name] by (simp_all add: d1_def)
  from ok1 have dist: "distinct (map fst (observers d1))"
    and reg: "\<And>name e. map_of (observers d1) name = Some e \<Longrightarrow>
          observer e < length (heap d1) \<and> createdAs (heap d1 ! observer e) = name
          \<and> observing (heap d1 ! observer e) \<noteq> []"
    and live: "\<And>oid. oid < length (heap d1) \<Longrightarrow> observing (heap d1 ! oid) \<noteq> [] \<Longrightarrow>
          (\<exists>e. map_of (observers d1) (createdAs (heap d1 ! oid)) = Some e \<and> observer e = oid)"
    by (auto simp: registryOk_def)
  define d2 where "d2 = d1\<lparr>heap := heap d1 @ [\<lparr>callback = cb, observing = [tgt], createdAs = name\<rparr>],
        observers := map_set name \<lparr>observer = length (heap d1), target = tgt\<rparr> (observers d1)\<rparr>"
  have ob: "observe name tgt cb d = d2"
    by (simp add: observe_def d1_def d2_def Let_def)
  have h2: "heap d2 = heap d1 @ [\<lparr>callback = cb, observing = [tgt], createdAs = name\<rparr>]"
    and o2: "map_of (observers d2) = (map_of (observers d1))(name \<mapsto> \<lparr>observer = length (heap d1), target = tgt\<rparr>)"
    by (simp_all add: d2_def)
  have "registryOk d2" unfolding registryOk_def
  proof (intro conjI allI impI)
    show "distinct (map fst (observers d2))"
      using dist by (simp add: d2_def distinct_map_set)
  next
    fix name' e'
    assume a: "map_of (observers d2) name' = Some e'"
    show "observer e' < length (heap d2)"
      using a reg [of name' e'] by (auto simp: h2 o2 split: if_splits)
    show "createdAs (heap d2 ! observer e') = name'"
      using a reg [of name' e'] by (auto simp: h2 o2 nth_append split: if_splits)
    show "observing (heap d2 ! observer e') \<noteq> []"
      using a reg [of name' e'] by (auto simp: h2 o2 nth_append split: if_splits)
  next
    fix oid
    assume lt: "oid < length (heap d2)" and on: "observing (heap d2 ! oid) \<noteq> []"
    show "\<exists>e. map_of (observers d2) (createdAs (heap d2 ! oid)) = Some e \<and> observer e = oid"
    proof (cases "oid = length (heap d1)")
      case True
      then show ?thesis by (simp add: h2 o2)
    next
      case False
      with lt have lt1: "oid < length (heap d1)" by (simp add: h2)
      with on have on1: "observing (heap d1 ! oid) \<noteq> []" by (simp add: h2 nth_append)
      from live [OF lt1 on1] obtain e where
        e: "map_of (observers d1) (createdAs (heap d1 ! oid)) = Some e" "observer e = oid"
        by blast
      then have "createdAs (heap d1 ! oid) \<noteq> name" using free by auto
      then show ?thesis using e lt1 by (simp add: h2 o2 nth_append)
    qed
  qed
  then show ?thesis by (simp add: ob)
qed

lemma fold_disconnect:
  "length (fold (\<lambda>(name, entry) h. disconnect (observer entry) h) al h) = length h"
  "i < length h \<Longrightarrow>
     observing (fold (\<lambda>(name, entry) h. disconnect (observer entry) h) al h ! i) =
       (if i \<in> observer ` snd ` set al then [] else observing (h ! i))"
  "i < length h \<Longrightarrow>
     createdAs (fold (\<lambda>(name, entry) h. disconnect (observer entry) h) al h ! i) = createdAs (h ! i)"
proof (induction al arbitrary: h)
  case Nil
  { case 1 show ?case by simp }
  { case 2 show ?case by simp }
  { case 3 show ?case by simp }
next
  case (Cons x al)
  obtain name e where x: "x = (name, e)" by (cases x)
  { case 1 show ?case using Cons.IH(1) [of "disconnect (observer e) h"] by (simp add: x) }
  { case 2 then show ?case using Cons.IH(2) [of "disconnect (observer e) h"]
      by (auto simp add: x observing_disconnect) }
  { case 3 then show ?case using Cons.IH(3) [of "disconnect (observer e) h"] by (simp add: x) }
qed

lemma registryOk_disconnectAll:
  assumes "registryOk d"
  shows "registryOk (disconnectAll d)"
proof -
  from assms have dist: "distinct (map fst (observers d))"
    and live: "\<And>oid. oid < length (heap d) \<Longrightarrow> observing (heap d ! oid) \<noteq> [] \<Longrightarrow>
          (\<exists>e. map_of (observers d) (createdAs (heap d ! oid)) = Some e \<and> observer e = oid)"
    by (auto simp: registryOk_def)
  have "observing (heap (disconnectAll d) ! oid) = []" if lt: "oid < length (heap d)" for oid
  proof (cases "observing (heap d ! oid) = []")
    case True
    then show ?thesis using lt by (simp add: disconnectAll_def fold_disconnect)
  next
    case False
    from live [OF lt False] obtain e where
      e: "map_of (observers d) (createdAs (heap d ! oid)) = Some e" "observer e = oid"
      by blast
    then have "(createdAs (heap d ! oid), e) \<in> set (observers d)" by (auto dest: map_of_SomeD)
    then have "oid \<in> observer ` snd ` set (observers d)" using e(2) by force
    then show ?thesis using lt by (simp add: disconnectAll_def fold_disconnect)
  qed
  then show ?thesis by (simp add: registryOk_def disconnectAll_def fold_disconnect)
qed

lemma registryOk_noObservers: "registryOk noObservers"
  by (simp add: registryOk_def noObservers_def)

lemma registryOk_applyDomCall: "registryOk d \<Longrightarrow> registryOk (applyDomCall c d)"
  by (cases c) (simp_all add: registryOk_observe registryOk_unobserve registryOk_disconnectAll)

lemma domCalls_Cons [simp]: "domCalls (c # cs) d = domCalls cs (applyDomCall c d)"
  and domCalls_Nil [simp]: "domCalls [] d = d"
  by (simp_all add: domCalls_def)

lemma registryOk_domCalls: "registryOk d \<Longrightarrow> registryOk (domCalls cs d)"
  by (induction cs arbitrary: d) (simp_all add: registryOk_applyDomCall)


lemma filter_upt_single:
  "x < n \<Longrightarrow> (\<And>i. i < n \<Longrightarrow> P i = (i = x)) \<Longrightarrow> filter P [0 ..< n] = [x]"
proof (induction n)
  case 0
  then show ?case by simp
next
  case (Suc n)
  show ?case
  proof (cases "x = n")
    case True
    have "filter P [0 ..< n] = []" using Suc.prems(2) True by (auto simp: filter_empty_conv)
    then show ?thesis using Suc.prems(2) [of n] True by simp
  next
    case False
    then have "x < n" using Suc.prems(1) by simp
    then have "filter P [0 ..< n] = [x]" using Suc.IH Suc.prems(2) by simp
    then show ?thesis using Suc.prems(2) [of n] False by simp
  qed
qed

lemma liveWatches_registry:
  assumes "registryOk d"
  shows "liveWatches name d = (case map_of (observers d) name of None \<Rightarrow> [] | Some e \<Rightarrow> [observer e])"
proof -
  from assms have reg: "\<And>name e. map_of (observers d) name = Some e \<Longrightarrow>
          observer e < length (heap d) \<and> createdAs (heap d ! observer e) = name
          \<and> observing (heap d ! observer e) \<noteq> []"
    and live: "\<And>oid. oid < length (heap d) \<Longrightarrow> observing (heap d ! oid) \<noteq> [] \<Longrightarrow>
          (\<exists>e. map_of (observers d) (createdAs (heap d ! oid)) = Some e \<and> observer e = oid)"
    unfolding registryOk_def by blast+
  let ?P = "\<lambda>oid. createdAs (heap d ! oid) = name \<and> observing (heap d ! oid) \<noteq> []"
  show ?thesis
  proof (cases "map_of (observers d) name")
    case None
    have "\<not> ?P oid" if lt: "oid < length (heap d)" for oid
    proof
      assume p: "?P oid"
      with live [OF lt] obtain e where "map_of (observers d) (createdAs (heap d ! oid)) = Some e"
        by blast
      with p None show False by simp
    qed
    then have "filter ?P [0 ..< length (heap d)] = []"
      by (simp add: filter_empty_conv)
    then show ?thesis using None by (simp add: liveWatches_def)
  next
    case (Some e)
    have "filter ?P [0 ..< length (heap d)] = [observer e]"
    proof (rule filter_upt_single)
      show "observer e < length (heap d)" using reg [OF Some] by simp
    next
      fix i assume lt: "i < length (heap d)"
      show "?P i = (i = observer e)"
      proof
        assume p: "?P i"
        with live [OF lt] obtain e' where
          e': "map_of (observers d) (createdAs (heap d ! i)) = Some e'" "observer e' = i"
          by blast
        with p Some have "e' = e" by simp
        with e' show "i = observer e" by simp
      next
        assume "i = observer e"
        with reg [OF Some] show "?P i" by simp
      qed
    qed
    then show ?thesis using Some by (simp add: liveWatches_def)
  qed
qed

text \<open>A disconnected observer stays disconnected.\<close>

lemma disconnected_applyDomCall:
  assumes "oid < length (heap d) \<and> observing (heap d ! oid) = []"
  shows "oid < length (heap (applyDomCall c d)) \<and> observing (heap (applyDomCall c d) ! oid) = []"
proof -
  have un: "oid < length (heap (unobserve name d)) \<and> observing (heap (unobserve name d) ! oid) = []"
    for name
    using assms by (simp add: unobserve_def observing_disconnect split: option.splits)
  show ?thesis
  proof (cases c)
    case (Observe name tgt cb)
    then show ?thesis using un [of name] by (simp add: observe_def Let_def nth_append)
  next
    case (Unobserve name)
    then show ?thesis using un [of name] by simp
  next
    case DisconnectAll
    then show ?thesis using assms by (simp add: disconnectAll_def fold_disconnect)
  qed
qed

lemma disconnected_domCalls:
  "oid < length (heap d) \<and> observing (heap d ! oid) = []
   \<Longrightarrow> oid < length (heap (domCalls cs d)) \<and> observing (heap (domCalls cs d) ! oid) = []"
proof (induction cs arbitrary: d)
  case Nil
  then show ?case by simp
next
  case (Cons c cs)
  show ?case using Cons.IH [OF disconnected_applyDomCall [OF Cons.prems, of c]] by simp
qed

lemma observe_disconnects_old:
  assumes "map_of (observers d) name = Some old" and "observer old < length (heap d)"
  shows "observer old < length (heap (observe name tgt cb d))
       \<and> observing (heap (observe name tgt cb d) ! observer old) = []"
  using assms by (simp add: observe_def unobserve_def Let_def nth_append observing_disconnect)

lemma observe_entry:
  "map_of (observers (observe name tgt cb d)) name = Some \<lparr>observer = length (heap d), target = tgt\<rparr>"
  by (simp add: observe_def unobserve_def Let_def split: option.splits)

text \<open>
  C8. After any sequence of \<^verbatim>\<open>DOM.observe\<close>, \<^verbatim>\<open>DOM.unobserve\<close> and
  \<^verbatim>\<open>DOM.disconnectAll\<close> calls the registry holds no name twice and at most one
  connected observer was created under a name, the one the registry holds for it. A further
  \<^verbatim>\<open>DOM.observe\<close> under a name leaves exactly the new observer connected for that
  name, and the observer it replaced is a different one that no mutation notifies any more,
  whatever calls follow.
\<close>

theorem observe_one_watch_per_name:
  fixes cs :: "'cb domCall list"
  defines "d \<equiv> domCalls cs noObservers"
  shows "distinct (map fst (observers d))
       \<and> length (liveWatches name d) \<le> 1
       \<and> liveWatches name d =
           (case map_of (observers d) name of None \<Rightarrow> [] | Some e \<Rightarrow> [observer e])
       \<and> liveWatches name (observe name tgt cb d) = [length (heap d)]
       \<and> (\<forall>old. map_of (observers d) name = Some old \<longrightarrow>
            (\<forall>cs' n. observer old \<noteq> length (heap d)
               \<and> observer old \<notin> set (notified n (domCalls cs' (observe name tgt cb d)))))"
proof -
  have ok: "registryOk d" unfolding d_def by (rule registryOk_domCalls [OF registryOk_noObservers])
  have lw: "liveWatches name d =
           (case map_of (observers d) name of None \<Rightarrow> [] | Some e \<Rightarrow> [observer e])"
    by (rule liveWatches_registry [OF ok])
  have new: "liveWatches name (observe name tgt cb d) = [length (heap d)]"
    using liveWatches_registry [OF registryOk_observe [OF ok], of name name tgt cb]
    by (simp add: observe_entry)
  have old: "observer old \<noteq> length (heap d)
        \<and> observer old \<notin> set (notified n (domCalls cs' (observe name tgt cb d)))"
    if m: "map_of (observers d) name = Some old" for old cs' n
  proof -
    have lt: "observer old < length (heap d)" using ok m by (auto simp: registryOk_def)
    from disconnected_domCalls [OF observe_disconnects_old [OF m lt]]
    have "observing (heap (domCalls cs' (observe name tgt cb d)) ! observer old) = []" by blast
    then show ?thesis using lt by (simp add: notified_def)
  qed
  have dist: "distinct (map fst (observers d))" using ok by (simp add: registryOk_def)
  have le: "length (liveWatches name d) \<le> 1" by (simp add: lw split: option.splits)
  from dist le lw new old show ?thesis by blast
qed

lemmas dom_defs = domCalls_def observe_def unobserve_def disconnect_def map_delete_def
  noObservers_def notified_def liveWatches_def

theorem observe_one_watch_per_name_witness:
  "map_of (observers (domCalls [Observe ''messages'' 1 (10::nat)] noObservers)) ''messages''
     = Some \<lparr>observer = 0, target = 1\<rparr>
   \<and> notified 1 (domCalls [Observe ''messages'' 1 (10::nat)] noObservers) = [0]
   \<and> liveWatches ''messages''
        (observe ''messages'' 2 20 (domCalls [Observe ''messages'' 1 (10::nat)] noObservers)) = [1]
   \<and> notified 1
        (observe ''messages'' 2 20 (domCalls [Observe ''messages'' 1 (10::nat)] noObservers)) = []
   \<and> notified 2
        (observe ''messages'' 2 20 (domCalls [Observe ''messages'' 1 (10::nat)] noObservers)) = [1]"
  using observe_one_watch_per_name [of "[Observe ''messages'' 1 (10::nat)]" "''messages''" 2 20]
  by (simp add: dom_defs Let_def upt_conv_Cons nth_append)

subsection \<open>Events after a deactivation\<close>

lemma messagesChangedCalls_append [simp]:
  "messagesChangedCalls k (cs @ ds) = messagesChangedCalls k cs + messagesChangedCalls k ds"
  by (simp add: messagesChangedCalls_def)

lemma messagesChangedCalls_single [simp]:
  "messagesChangedCalls k [OnMessagesChanged k' c] = (if k' = k then 1 else 0)"
  "messagesChangedCalls k [OnNavigate k' cid] = 0"
  "messagesChangedCalls k [Init k' st] = 0"
  "messagesChangedCalls k [Destroy k'] = 0"
  "messagesChangedCalls k [] = 0"
  by (simp_all add: messagesChangedCalls_def)

lemma destroyCalls_hooks [simp]:
  "destroyCalls k [OnMessagesChanged k' c] = 0"
  "destroyCalls k [OnNavigate k' cid] = 0"
  by (simp_all add: destroyCalls_def)

lemma messagesChangedCalls_map_Navigate [simp]:
  "messagesChangedCalls k (map (\<lambda>k'. OnNavigate k' cid) ks) = 0"
  by (induction ks) (simp_all add: messagesChangedCalls_def)

lemma destroyCalls_map_hooks [simp]:
  "destroyCalls k (map (\<lambda>k'. OnNavigate k' cid) ks) = 0"
  "destroyCalls k (map (\<lambda>k'. OnMessagesChanged k' c) ks) = 0"
  by (induction ks) (simp_all add: destroyCalls_def)

lemma messagesChangedCalls_map_other:
  "k \<notin> set ks \<Longrightarrow> messagesChangedCalls k (map (\<lambda>k'. OnMessagesChanged k' c) ks) = 0"
proof (induction ks)
  case Nil
  show ?case by simp
next
  case (Cons x ks)
  have "messagesChangedCalls k (map (\<lambda>k'. OnMessagesChanged k' c) (x # ks)) =
      messagesChangedCalls k [OnMessagesChanged x c] +
      messagesChangedCalls k (map (\<lambda>k'. OnMessagesChanged k' c) ks)"
    by (simp add: messagesChangedCalls_def)
  then show ?case using Cons by auto
qed

text \<open>What the two notification loops do to the state.\<close>

lemma notifyNavigate_effect:
  "\<exists>ks'. snd (notifyNavigate ks cid s) = s\<lparr>calls := calls s @ map (\<lambda>k. OnNavigate k cid) ks'\<rparr>"
proof (induction ks arbitrary: s)
  case Nil
  have "s = s\<lparr>calls := calls s @ map (\<lambda>k. OnNavigate k cid) []\<rparr>" by simp
  then show ?case by (metis notifyNavigate.simps(1) snd_conv)
next
  case (Cons k ks)
  show ?case
  proof (cases "features s k")
    case None
    then show ?thesis using Cons.IH [of s] by simp
  next
    case (Some m)
    show ?thesis
    proof (cases "onNavigate m")
      case None
      then show ?thesis using Some Cons.IH [of s] by simp
    next
      case f: (Some f)
      let ?s = "s\<lparr>calls := calls s @ [OnNavigate k cid]\<rparr>"
      show ?thesis
      proof (cases "f (calls s) cid")
        case Throws
        have "?s = s\<lparr>calls := calls s @ map (\<lambda>k. OnNavigate k cid) [k]\<rparr>" by simp
        moreover have "snd (notifyNavigate (k # ks) cid s) = ?s" using Some f Throws by simp
        ultimately show ?thesis by metis
      next
        case Returns
        from Cons.IH [of ?s] obtain ks' where
          "snd (notifyNavigate ks cid ?s) = ?s\<lparr>calls := calls ?s @ map (\<lambda>k. OnNavigate k cid) ks'\<rparr>"
          by blast
        then have "snd (notifyNavigate (k # ks) cid s) =
            s\<lparr>calls := calls s @ map (\<lambda>k. OnNavigate k cid) (k # ks')\<rparr>"
          using Some f Returns by simp
        then show ?thesis by blast
      qed
    qed
  qed
qed

lemma notifyMessagesChanged_effect:
  "\<exists>ks'. set ks' \<subseteq> set ks
     \<and> snd (notifyMessagesChanged ks c s) = s\<lparr>calls := calls s @ map (\<lambda>k. OnMessagesChanged k c) ks'\<rparr>"
proof (induction ks arbitrary: s)
  case Nil
  have "s = s\<lparr>calls := calls s @ map (\<lambda>k. OnMessagesChanged k c) []\<rparr>" by simp
  then have "set [] \<subseteq> set ([]::FeatureKey list) \<and> snd (notifyMessagesChanged [] c s) =
      s\<lparr>calls := calls s @ map (\<lambda>k. OnMessagesChanged k c) []\<rparr>" by simp
  then show ?case by blast
next
  case (Cons k ks)
  from Cons.IH [of s] obtain ks0 where ks0: "set ks0 \<subseteq> set ks"
    "snd (notifyMessagesChanged ks c s) = s\<lparr>calls := calls s @ map (\<lambda>k. OnMessagesChanged k c) ks0\<rparr>"
    by blast
  then have skip: "set ks0 \<subseteq> set (k # ks)" by auto
  show ?case
  proof (cases "features s k")
    case None
    then show ?thesis using ks0(2) skip by (simp del: set_simps) blast
  next
    case (Some m)
    show ?thesis
    proof (cases "onMessagesChanged m")
      case None
      then show ?thesis using Some ks0(2) skip by (simp del: set_simps) blast
    next
      case f: (Some f)
      let ?s = "s\<lparr>calls := calls s @ [OnMessagesChanged k c]\<rparr>"
      show ?thesis
      proof (cases "f (calls s) c")
        case Throws
        have "set [k] \<subseteq> set (k # ks)" by simp
        moreover have "snd (notifyMessagesChanged (k # ks) c s) =
            s\<lparr>calls := calls s @ map (\<lambda>k. OnMessagesChanged k c) [k]\<rparr>"
          using Some f Throws by simp
        ultimately show ?thesis by blast
      next
        case Returns
        from Cons.IH [of ?s] obtain ks' where ks': "set ks' \<subseteq> set ks"
          "snd (notifyMessagesChanged ks c ?s) =
             ?s\<lparr>calls := calls ?s @ map (\<lambda>k. OnMessagesChanged k c) ks'\<rparr>"
          by blast
        have "set (k # ks') \<subseteq> set (k # ks)" using ks'(1) by auto
        moreover have "snd (notifyMessagesChanged (k # ks) c s) =
            s\<lparr>calls := calls s @ map (\<lambda>k. OnMessagesChanged k c) (k # ks')\<rparr>"
          using Some f Returns ks'(2) by simp
        ultimately show ?thesis by blast
      qed
    qed
  qed
qed


text \<open>Steps that leave a key as it is.\<close>

lemma untouched_refl [simp]: "untouched k s s"
  by (simp add: untouched_def)

lemma untouched_trans: "untouched k s s1 \<Longrightarrow> untouched k s1 s2 \<Longrightarrow> untouched k s s2"
  by (simp add: untouched_def)

lemma untouched_fields:
  "activeFeatures s' = activeFeatures s \<Longrightarrow> calls s' = calls s \<Longrightarrow> untouched k s s'"
  by (simp add: untouched_def)

lemma untouched_setTimeout [simp]: "untouched k s (snd (setTimeout f delay s))"
  by (simp add: untouched_def setTimeout_def)

lemma untouched_clearTimeout [simp]: "untouched k s (clearTimeout tid s)"
  by (simp add: untouched_def clearTimeout_def)

lemma untouched_setSidebarPinningEnabled [simp]:
  "untouched k s (snd (setSidebarPinningEnabled enabled s))"
  by (simp add: untouched_def setSidebarPinningEnabled_def)

lemma untouched_setupMessageObserver [simp]:
  "untouched k s (setupMessageObserver container retryCount s)"
  by (simp add: untouched_def setupMessageObserver_def setTimeout_def clearTimeout_def
      split: option.splits)

lemma untouched_debounced [simp]: "untouched k s (debounced oid c s)"
  by (simp add: untouched_def debounced_def setTimeout_def clearTimeout_def split: option.splits)

lemma untouched_fold_debounced:
  "untouched k s (fold (\<lambda>oid s'. debounced oid (g oid) s') oids s)"
proof (induction oids arbitrary: s)
  case Nil
  show ?case by simp
next
  case (Cons oid oids)
  show ?case using untouched_trans [OF untouched_debounced Cons.IH] by simp
qed

lemma untouched_onDomMutation [simp]: "untouched k s (onDomMutation n s)"
  unfolding onDomMutation_def by (rule untouched_fold_debounced)

lemma untouched_notifyNavigate [simp]: "untouched k s (snd (notifyNavigate ks cid s))"
proof -
  obtain ks' where "snd (notifyNavigate ks cid s) =
      s\<lparr>calls := calls s @ map (\<lambda>k. OnNavigate k cid) ks'\<rparr>"
    using notifyNavigate_effect by blast
  then show ?thesis by (simp add: untouched_def)
qed

lemma untouched_checkNavigation [simp]: "untouched k s (snd (checkNavigation p s))"
proof (cases "p = lastPath s")
  case True
  then show ?thesis by (simp add: checkNavigation_def)
next
  case False
  let ?s1 = "s\<lparr>lastPath := p\<rparr>"
  obtain r s2 where n: "notifyNavigate (activeFeatures ?s1) (getConversationId p) ?s1 = (r, s2)"
    by (cases "notifyNavigate (activeFeatures ?s1) (getConversationId p) ?s1")
  have "untouched k ?s1 (snd (notifyNavigate (activeFeatures ?s1) (getConversationId p) ?s1))"
    by (rule untouched_notifyNavigate)
  then have "untouched k ?s1 s2" unfolding n by simp
  then have u2: "untouched k s s2" by (simp add: untouched_def)
  show ?thesis
  proof (cases r)
    case Throws
    then show ?thesis using False n u2 by (simp add: checkNavigation_def Let_def)
  next
    case Returns
    have "untouched k s2 (snd (setTimeout (TSetupMessageObserver 0) 300
        (if sidebarPinningEnabled s2 then snd (setTimeout TApplySidebarPinning 250 s2) else s2)))"
      by (simp add: untouched_def setTimeout_def)
    then show ?thesis using False n Returns untouched_trans [OF u2]
      by (simp add: checkNavigation_def Let_def)
  qed
qed

lemma untouched_onMutation:
  assumes "k \<notin> set (activeFeatures s)"
  shows "untouched k s (snd (onMutation c s))"
proof -
  obtain ks' where ks': "set ks' \<subseteq> set (activeFeatures s)"
    "snd (onMutation c s) = s\<lparr>calls := calls s @ map (\<lambda>k. OnMessagesChanged k c) ks'\<rparr>"
    unfolding onMutation_def using notifyMessagesChanged_effect by blast
  then have "k \<notin> set ks'" using assms by auto
  then show ?thesis using ks'(2) by (simp add: untouched_def messagesChangedCalls_map_other)
qed

lemma untouched_onTimer:
  assumes "k \<notin> set (activeFeatures s)"
  shows "untouched k s (snd (onTimer tid p container s))"
proof (cases "find (\<lambda>(i, _, _). i = tid) (timers s)")
  case None
  then show ?thesis by (simp add: onTimer_def)
next
  case (Some t)
  obtain i delay f where t: "t = (i, delay, f)" by (cases t)
  have c: "untouched k s (clearTimeout tid s)" by simp
  have a: "k \<notin> set (activeFeatures (clearTimeout tid s))"
    using assms by (simp add: clearTimeout_def)
  show ?thesis
  proof (cases f)
    case TCheckNavigation
    then show ?thesis using Some t untouched_trans [OF c untouched_checkNavigation]
      by (simp add: onTimer_def)
  next
    case (TSetupMessageObserver n)
    then show ?thesis using Some t untouched_trans [OF c untouched_setupMessageObserver]
      by (simp add: onTimer_def)
  next
    case TApplySidebarPinning
    then show ?thesis using Some t c by (simp add: onTimer_def)
  next
    case (TOnMutation x)
    then show ?thesis using Some t untouched_trans [OF c untouched_onMutation [OF a]]
      by (simp add: onTimer_def)
  qed
qed

lemma untouched_activateFeature:
  "k' \<noteq> k \<Longrightarrow> untouched k s (snd (activateFeature k' st s))"
  by (auto simp add: untouched_def activateFeature_def split: option.splits outcome.splits)

lemma untouched_deactivateFeature:
  "k \<notin> set (activeFeatures s) \<Longrightarrow> untouched k s (snd (deactivateFeature k' s))"
  by (auto simp add: untouched_def deactivateFeature_def split: option.splits outcome.splits)

lemma untouched_inactive:
  "untouched k s s' \<Longrightarrow> k \<notin> set (activeFeatures s) \<Longrightarrow> k \<notin> set (activeFeatures s')"
  by (simp add: untouched_def)

lemma untouched_syncLoop:
  assumes "k \<notin> set (activeFeatures s)" and "(k, True) \<notin> set ts"
  shows "untouched k s (snd (syncLoop ts st s))"
  using assms
proof (induction ts arbitrary: s)
  case Nil
  show ?case by simp
next
  case (Cons x ts)
  obtain k' en where x: "x = (k', en)" by (cases x)
  let ?s = "snd (if en then activateFeature k' st s else deactivateFeature k' s)"
  have step: "untouched k s ?s"
  proof (cases en)
    case True
    then have "k' \<noteq> k" using Cons.prems(2) x by auto
    then show ?thesis using True by (simp add: untouched_activateFeature)
  next
    case False
    then show ?thesis using Cons.prems(1) by (simp add: untouched_deactivateFeature)
  qed
  have "untouched k ?s (snd (syncLoop ts st ?s))"
    using Cons.IH [of ?s] untouched_inactive [OF step Cons.prems(1)] Cons.prems(2) by simp
  then show ?case using untouched_trans [OF step] by (simp only: x syncLoop_Cons)
qed

lemma untouched_syncFeatures:
  assumes "k \<notin> set (activeFeatures s)" and "(k, True) \<notin> set (featureToggles st)"
  shows "untouched k s (snd (syncFeatures st s))"
  using untouched_syncLoop [OF assms, of st] by (simp add: untouched_def)

lemma untouched_onFeatureToggle:
  assumes "k \<notin> set (activeFeatures s)" and "\<not> (k' = k \<and> enabled)"
  shows "untouched k s (snd (onFeatureToggle k' enabled st s))"
proof -
  let ?r = "if enabled then activateFeature k' st s else deactivateFeature k' s"
  have step: "untouched k s (snd ?r)"
    using assms by (auto simp add: untouched_activateFeature untouched_deactivateFeature)
  obtain s' where r: "?r = (Returns, s')"
    by (metis activateFeature_Returns deactivateFeature_Returns prod.collapse)
  have "snd (onFeatureToggle k' enabled st s) =
      (if k' = ''folders'' then snd (setSidebarPinningEnabled enabled s') else s')"
    using r by (simp add: onFeatureToggle_def)
  moreover have "untouched k s s'" using step r by simp
  ultimately show ?thesis
    using untouched_trans [OF _ untouched_setSidebarPinningEnabled] by simp
qed

lemma untouched_handle:
  assumes "k \<notin> set (activeFeatures s)" and "\<not> activates k ev"
  shows "untouched k s (handle ev s)"
proof (cases ev)
  case (SettingsChanged st)
  then show ?thesis using assms by (simp add: untouched_syncFeatures)
next
  case (FeatureToggle k' enabled st)
  then show ?thesis using assms by (simp add: untouched_onFeatureToggle)
next
  case (Navigation p)
  then show ?thesis by simp
next
  case (Timer tid p container)
  then show ?thesis using assms by (simp add: untouched_onTimer)
next
  case (Mutation n)
  then show ?thesis by simp
qed

lemma untouched_run:
  assumes "k \<notin> set (activeFeatures s)" and "list_all (\<lambda>ev. \<not> activates k ev) evs"
  shows "untouched k s (run evs s)"
  using assms
proof (induction evs arbitrary: s)
  case Nil
  show ?case by (simp add: run_def)
next
  case (Cons ev evs)
  have step: "untouched k s (handle ev s)"
    using Cons.prems by (simp add: untouched_handle)
  have "untouched k (handle ev s) (run evs (handle ev s))"
    using Cons.IH [of "handle ev s"] untouched_inactive [OF step Cons.prems(1)] Cons.prems(2)
    by simp
  then show ?case using untouched_trans [OF step] by (simp add: run_def)
qed


lemma messagesChangedCalls_lifecycle [simp]:
  "messagesChangedCalls k (calls (snd (activateFeature k' st s))) = messagesChangedCalls k (calls s)"
  "messagesChangedCalls k (calls (snd (deactivateFeature k' s))) = messagesChangedCalls k (calls s)"
  by (simp_all add: activateFeature_def deactivateFeature_def split: option.splits outcome.splits)

lemma messagesChangedCalls_syncLoop [simp]:
  "messagesChangedCalls k (calls (snd (syncLoop ts st s))) = messagesChangedCalls k (calls s)"
proof (induction ts arbitrary: s)
  case Nil
  show ?case by simp
next
  case (Cons x ts)
  obtain k' en where x: "x = (k', en)" by (cases x)
  show ?case unfolding x syncLoop_Cons by (simp add: Cons.IH)
qed

lemma handle_deactivates:
  assumes "k \<in> set (activeFeatures s)"
    and "features s k = Some m"
    and "ev = FeatureToggle k False settings
         \<or> (ev = SettingsChanged settings \<and> distinct (map fst (featureToggles settings))
             \<and> (k, False) \<in> set (featureToggles settings))"
  shows "k \<notin> set (activeFeatures (handle ev s))"
    and "destroyCalls k (calls (handle ev s)) = destroyCalls k (calls s) + 1"
    and "messagesChangedCalls k (calls (handle ev s)) = messagesChangedCalls k (calls s)"
proof -
  from assms(3) consider
    (toggle) "ev = FeatureToggle k False settings"
    | (sync) "ev = SettingsChanged settings" "distinct (map fst (featureToggles settings))"
        "(k, False) \<in> set (featureToggles settings)"
    by blast
  then have "k \<notin> set (activeFeatures (handle ev s))
      \<and> destroyCalls k (calls (handle ev s)) = destroyCalls k (calls s) + 1
      \<and> messagesChangedCalls k (calls (handle ev s)) = messagesChangedCalls k (calls s)"
  proof cases
    case toggle
    obtain s1 where s1: "deactivateFeature k s = (Returns, s1)"
      by (metis deactivateFeature_Returns prod.collapse)
    have "k \<notin> set (activeFeatures s1)"
      "destroyCalls k (calls s1) = destroyCalls k (calls s) + 1"
      "messagesChangedCalls k (calls s1) = messagesChangedCalls k (calls s)"
      using deactivateFeature_self [of k s] messagesChangedCalls_lifecycle(2) [of k k s]
        s1 assms(1,2) by simp_all
    moreover have "handle ev s =
        (if k = ''folders'' then snd (setSidebarPinningEnabled False s1) else s1)"
      using toggle s1 by (simp add: onFeatureToggle_def)
    ultimately show ?thesis by (auto simp add: setSidebarPinningEnabled_def)
  next
    case sync
    obtain s0 where s0: "features s0 = features s"
        "(k \<in> set (activeFeatures s0)) = (k \<in> set (activeFeatures s))"
        "destroyCalls k (calls s0) = destroyCalls k (calls s)"
      and s1: "(k \<in> set (activeFeatures (snd (syncLoop (featureToggles settings) settings s)))) =
           (k \<in> set (activeFeatures (snd (deactivateFeature k s0))))"
        "destroyCalls k (calls (snd (syncLoop (featureToggles settings) settings s))) =
           destroyCalls k (calls (snd (deactivateFeature k s0)))"
      using syncLoop_key [OF sync(2) sync(3), of s settings] by (auto simp only: if_False)
    have "destroyCalls k (calls (snd (deactivateFeature k s0))) = destroyCalls k (calls s) + 1"
      using deactivateFeature_self(2) [of k s0] s0 assms(1,2) by simp
    moreover have "k \<notin> set (activeFeatures (snd (deactivateFeature k s0)))"
      by (rule deactivateFeature_self(1))
    ultimately show ?thesis using sync(1) s1 by simp
  qed
  then show "k \<notin> set (activeFeatures (handle ev s))"
    and "destroyCalls k (calls (handle ev s)) = destroyCalls k (calls s) + 1"
    and "messagesChangedCalls k (calls (handle ev s)) = messagesChangedCalls k (calls s)"
    by simp_all
qed

text \<open>
  C9. Let a registered feature be Active and be switched off, by a \<^verbatim>\<open>FEATURE_TOGGLE\<close>
  message or by a \<^verbatim>\<open>SETTINGS_CHANGED\<close> message whose settings disable it. Its
  \<^verbatim>\<open>destroy\<close> is called exactly once, and through every later sequence of events
  (messages, navigations, timers, mutations) that does not enable it again it stays
  Inactive, gets no \<^verbatim>\<open>onMessagesChanged\<close> call and no further \<^verbatim>\<open>destroy\<close> call.
  Whenever the mutation callback fires, in any state, the \<^verbatim>\<open>onMessagesChanged\<close>
  calls it makes go to keys of the active set of that moment only.
\<close>

theorem deactivated_gets_no_messages:
  assumes "k \<in> set (activeFeatures s)"
    and "features s k = Some m"
    and "ev = FeatureToggle k False settings
         \<or> (ev = SettingsChanged settings \<and> distinct (map fst (featureToggles settings))
             \<and> (k, False) \<in> set (featureToggles settings))"
    and "list_all (\<lambda>e. \<not> activates k e) evs"
  shows "destroyCalls k (calls (handle ev s)) = destroyCalls k (calls s) + 1
       \<and> k \<notin> set (activeFeatures (run evs (handle ev s)))
       \<and> messagesChangedCalls k (calls (run evs (handle ev s))) = messagesChangedCalls k (calls s)
       \<and> destroyCalls k (calls (run evs (handle ev s))) = destroyCalls k (calls s) + 1
       \<and> (\<forall>c s'. \<exists>ks. set ks \<subseteq> set (activeFeatures s')
             \<and> calls (snd (onMutation c s')) = calls s' @ map (\<lambda>k'. OnMessagesChanged k' c) ks)"
proof -
  note off = handle_deactivates [OF assms(1,2,3)]
  have u: "untouched k (handle ev s) (run evs (handle ev s))"
    by (rule untouched_run [OF off(1) assms(4)])
  have fire: "\<exists>ks. set ks \<subseteq> set (activeFeatures s')
      \<and> calls (snd (onMutation c s')) = calls s' @ map (\<lambda>k'. OnMessagesChanged k' c) ks"
    for c s'
  proof -
    obtain ks where "set ks \<subseteq> set (activeFeatures s')"
      "snd (onMutation c s') = s'\<lparr>calls := calls s' @ map (\<lambda>k. OnMessagesChanged k c) ks\<rparr>"
      unfolding onMutation_def using notifyMessagesChanged_effect by blast
    then have "set ks \<subseteq> set (activeFeatures s')
      \<and> calls (snd (onMutation c s')) = calls s' @ map (\<lambda>k'. OnMessagesChanged k' c) ks"
      by simp
    then show ?thesis by blast
  qed
  from u off have "destroyCalls k (calls (handle ev s)) = destroyCalls k (calls s) + 1
       \<and> k \<notin> set (activeFeatures (run evs (handle ev s)))
       \<and> messagesChangedCalls k (calls (run evs (handle ev s))) = messagesChangedCalls k (calls s)
       \<and> destroyCalls k (calls (run evs (handle ev s))) = destroyCalls k (calls s) + 1"
    by (simp add: untouched_def)
  with fire show ?thesis by blast
qed

lemmas event_defs = watching_def quietFeatures_def registerFeature_def emptyState_def
  quietModule_def defaultSettings_def setupMessageObserver_def observe_def unobserve_def
  noObservers_def run_def onFeatureToggle_def deactivateFeature_def set_delete_def
  onDomMutation_def notified_def debounced_def setTimeout_def clearTimeout_def onTimer_def
  onMutation_def destroyCalls_def messagesChangedCalls_def

theorem deactivated_gets_no_messages_witness:
  "activeFeatures watching = [''timeline'', ''folders'']
   \<and> features watching ''timeline'' = Some (quietModule ''timeline'')
   \<and> list_all (\<lambda>e. \<not> activates ''timeline'' e) [Mutation 7, Timer 1 ''/new'' (Some 7)]
   \<and> calls (run [Mutation 7, Timer 1 ''/new'' (Some 7)]
              (handle (FeatureToggle ''timeline'' False defaultSettings) watching)) =
       [Destroy ''timeline'', OnMessagesChanged ''folders'' 7]"
  using deactivated_gets_no_messages [of "''timeline''" watching "quietModule ''timeline''"
      "FeatureToggle ''timeline'' False defaultSettings" defaultSettings
      "[Mutation 7, Timer 1 ''/new'' (Some 7)]"]
  by (simp add: event_defs Let_def upt_conv_Cons)

subsection \<open>Reachable states\<close>

text \<open>
  Every Active key is registered: the hypothesis of the reconciliation theorem holds in the
  initial state, after every registration and after every event.
\<close>

lemma frame_setTimeout [simp]:
  "activeFeatures (snd (setTimeout f delay s)) = activeFeatures s"
  "features (snd (setTimeout f delay s)) = features s"
  by (simp_all add: setTimeout_def)

lemma frame_clearTimeout [simp]:
  "activeFeatures (clearTimeout tid s) = activeFeatures s"
  "features (clearTimeout tid s) = features s"
  by (simp_all add: clearTimeout_def)

lemma frame_setSidebarPinningEnabled [simp]:
  "activeFeatures (snd (setSidebarPinningEnabled enabled s)) = activeFeatures s"
  "features (snd (setSidebarPinningEnabled enabled s)) = features s"
  by (simp_all add: setSidebarPinningEnabled_def)

lemma frame_setupMessageObserver [simp]:
  "activeFeatures (setupMessageObserver container retryCount s) = activeFeatures s"
  "features (setupMessageObserver container retryCount s) = features s"
  by (simp_all add: setupMessageObserver_def setTimeout_def clearTimeout_def split: option.splits)

lemma frame_debounced [simp]:
  "activeFeatures (debounced oid c s) = activeFeatures s"
  "features (debounced oid c s) = features s"
  by (simp_all add: debounced_def setTimeout_def clearTimeout_def split: option.splits)

lemma frame_fold_debounced:
  "activeFeatures (fold (\<lambda>oid s'. debounced oid (g oid) s') oids s) = activeFeatures s
   \<and> features (fold (\<lambda>oid s'. debounced oid (g oid) s') oids s) = features s"
  by (induction oids arbitrary: s) simp_all

lemma frame_onDomMutation [simp]:
  "activeFeatures (onDomMutation n s) = activeFeatures s"
  "features (onDomMutation n s) = features s"
  using frame_fold_debounced [of "\<lambda>oid. callback (heap (DOM s) ! oid)" "notified n (DOM s)" s]
  by (simp_all add: onDomMutation_def)

lemma frame_notifyNavigate [simp]:
  "activeFeatures (snd (notifyNavigate ks cid s)) = activeFeatures s"
  "features (snd (notifyNavigate ks cid s)) = features s"
proof -
  obtain ks' where "snd (notifyNavigate ks cid s) =
      s\<lparr>calls := calls s @ map (\<lambda>k. OnNavigate k cid) ks'\<rparr>"
    using notifyNavigate_effect by blast
  then show "activeFeatures (snd (notifyNavigate ks cid s)) = activeFeatures s"
    and "features (snd (notifyNavigate ks cid s)) = features s"
    by simp_all
qed

lemma frame_onMutation [simp]:
  "activeFeatures (snd (onMutation c s)) = activeFeatures s"
  "features (snd (onMutation c s)) = features s"
proof -
  obtain ks' where "snd (onMutation c s) =
      s\<lparr>calls := calls s @ map (\<lambda>k. OnMessagesChanged k c) ks'\<rparr>"
    unfolding onMutation_def using notifyMessagesChanged_effect by blast
  then show "activeFeatures (snd (onMutation c s)) = activeFeatures s"
    and "features (snd (onMutation c s)) = features s"
    by simp_all
qed

lemma frame_checkNavigation [simp]:
  "activeFeatures (snd (checkNavigation p s)) = activeFeatures s"
  "features (snd (checkNavigation p s)) = features s"
proof -
  let ?s1 = "s\<lparr>lastPath := p\<rparr>"
  obtain r s2 where n: "notifyNavigate (activeFeatures ?s1) (getConversationId p) ?s1 = (r, s2)"
    by (cases "notifyNavigate (activeFeatures ?s1) (getConversationId p) ?s1")
  have "activeFeatures s2 = activeFeatures s \<and> features s2 = features s"
    using frame_notifyNavigate [of "activeFeatures ?s1" "getConversationId p" ?s1]
    unfolding n by simp
  then show "activeFeatures (snd (checkNavigation p s)) = activeFeatures s"
    and "features (snd (checkNavigation p s)) = features s"
    using n by (cases r; simp add: checkNavigation_def Let_def)+
qed

lemma frame_onTimer [simp]:
  "activeFeatures (snd (onTimer tid p container s)) = activeFeatures s"
  "features (snd (onTimer tid p container s)) = features s"
  by (simp_all add: onTimer_def split: option.splits task.splits)

lemma registered_activateFeature:
  "set (activeFeatures s) \<subseteq> dom (features s)
   \<Longrightarrow> set (activeFeatures (snd (activateFeature k st s))) \<subseteq> dom (features s)"
  by (auto simp add: activateFeature_def split: option.splits outcome.splits)

lemma registered_deactivateFeature:
  "set (activeFeatures s) \<subseteq> dom (features s)
   \<Longrightarrow> set (activeFeatures (snd (deactivateFeature k s))) \<subseteq> dom (features s)"
  by (auto simp add: deactivateFeature_def split: option.splits outcome.splits)

lemma registered_syncLoop:
  "set (activeFeatures s) \<subseteq> dom (features s)
   \<Longrightarrow> set (activeFeatures (snd (syncLoop ts st s))) \<subseteq> dom (features s)"
proof (induction ts arbitrary: s)
  case Nil
  then show ?case by simp
next
  case (Cons x ts)
  obtain k en where x: "x = (k, en)" by (cases x)
  let ?s = "snd (if en then activateFeature k st s else deactivateFeature k s)"
  have "set (activeFeatures ?s) \<subseteq> dom (features ?s)"
    using Cons.prems by (simp add: registered_activateFeature registered_deactivateFeature)
  from Cons.IH [OF this] have "set (activeFeatures (snd (syncLoop ts st ?s))) \<subseteq> dom (features s)"
    by (cases en) simp_all
  then show ?case by (simp only: x syncLoop_Cons)
qed

lemma registered_handle:
  assumes "set (activeFeatures s) \<subseteq> dom (features s)"
  shows "set (activeFeatures (handle ev s)) \<subseteq> dom (features (handle ev s))"
proof (cases ev)
  case (SettingsChanged st)
  then show ?thesis using registered_syncLoop [OF assms] by simp
next
  case (FeatureToggle k enabled st)
  let ?r = "if enabled then activateFeature k st s else deactivateFeature k s"
  obtain s' where r: "?r = (Returns, s')"
    by (metis activateFeature_Returns deactivateFeature_Returns prod.collapse)
  have "set (activeFeatures (snd ?r)) \<subseteq> dom (features s) \<and> features (snd ?r) = features s"
    using assms by (simp add: registered_activateFeature registered_deactivateFeature)
  then have "set (activeFeatures s') \<subseteq> dom (features s')" using r by simp
  moreover have "handle ev s =
      (if k = ''folders'' then snd (setSidebarPinningEnabled enabled s') else s')"
    using FeatureToggle r by (simp add: onFeatureToggle_def)
  ultimately show ?thesis by simp
next
  case (Navigation p)
  then show ?thesis using assms by simp
next
  case (Timer tid p container)
  then show ?thesis using assms by simp
next
  case (Mutation n)
  then show ?thesis using assms by simp
qed

lemma registered_run:
  "set (activeFeatures s) \<subseteq> dom (features s)
   \<Longrightarrow> set (activeFeatures (run evs s)) \<subseteq> dom (features (run evs s))"
proof (induction evs arbitrary: s)
  case Nil
  then show ?case by (simp add: run_def)
next
  case (Cons ev evs)
  from Cons.IH [OF registered_handle [OF Cons.prems, of ev]] show ?case by (simp add: run_def)
qed

lemma registered_registerFeature:
  "set (activeFeatures s) \<subseteq> dom (features s)
   \<Longrightarrow> set (activeFeatures (registerFeature m s)) \<subseteq> dom (features (registerFeature m s))"
  by (auto simp add: registerFeature_def)

lemma registered_emptyState: "set (activeFeatures emptyState) \<subseteq> dom (features emptyState)"
  by (simp add: emptyState_def)

end
